theory Spec2Isabelle
  imports Main "HOL-Library.DAList" "HOL-Library.Char_ord" "HOL-Library.List_Lexorder"
    "HOL-Library.Product_Lexorder" "HOL-Library.Word"
begin

section \<open>Offline cache gateway (service worker)\<close>

text \<open>
  The service worker is embedded over an explicit model of the browser objects it calls:
  the network (\<open>fetch\<close>), the origin's cache storage (\<open>caches\<close>) and the event's
  \<open>respondWith\<close>. A request is identified in a cache by its URL without the
  fragment; the worker only ever caches GET requests, and requests carry no headers
  here, so a \<open>Vary\<close> header other than \<open>*\<close> never tells two requests
  for one URL apart.
\<close>

record request =
  "method" :: string
  url :: string
  mode :: string

text \<open>
  A response: its status, its body, and the field names its \<open>Vary\<close> header lists
  (none when it has no such header).
\<close>

record response =
  status :: nat
  statusText :: string
  body :: string
  vary :: "string list"

text \<open>The settled state of a promise: fulfilled with a value, or rejected.\<close>

datatype 'a promise = Fulfilled 'a | Rejected

text \<open>
  The network as the worker sees it: the outcome of \<open>fetch\<close> for a URL. The value of
  a fulfilled fetch is optional because the source tests \<open>!response\<close>.
\<close>

type_synonym network = "string \<Rightarrow> response option promise"

text \<open>
  One cache maps request URLs (without their fragment) to responses. The cache storage is
  the list of named caches in creation order, names distinct (the order is the order of
  \<open>caches.keys()\<close> and of the search of \<open>caches.match\<close>).
\<close>

type_synonym cache = "string \<rightharpoonup> response"

type_synonym cache_storage = "(string, cache) alist"

text \<open>The platform calls the worker makes, in the order it makes them.\<close>

datatype effect =
  NetFetch string
  | CacheMatch string
  | CacheOpen string
  | CachePut string string

text \<open>
  What the page gets from a fetch event: the listener returned without calling
  \<open>respondWith\<close> (the browser handles the request itself), or the promise passed to
  \<open>respondWith\<close> settled with a value (\<open>None\<close> is \<open>undefined\<close>, which
  is not a response: the page's fetch fails), or it was rejected.
\<close>

datatype outcome =
  NotIntercepted
  | Responded "response option"
  | RespondRejected

definition CACHE_NAME :: string where
  "CACHE_NAME = ''visitorbook-v6''"

definition ASSETS_TO_CACHE :: "string list" where
  "ASSETS_TO_CACHE =
    [''/'', ''/index.html'', ''/css/tailwind.css'', ''/css/app.css'', ''/js/app.js'',
     ''/js/canvas.js'', ''/js/camera.js'', ''/js/storage.js'', ''/manifest.json'']"

subsection \<open>Cache storage operations of the platform\<close>

definition caches_keys :: "cache_storage \<Rightarrow> string list" where
  "caches_keys cs = map fst (DAList.impl_of cs)"

text \<open>\<open>caches.open(name)\<close> creates the cache when there is none of that name.\<close>

definition caches_open :: "string \<Rightarrow> cache_storage \<Rightarrow> cache_storage" where
  "caches_open cname cs =
    (case DAList.lookup cs cname of
       Some c \<Rightarrow> cs
     | None \<Rightarrow> DAList.update cname Map.empty cs)"

definition caches_delete :: "string \<Rightarrow> cache_storage \<Rightarrow> cache_storage" where
  "caches_delete cname cs = DAList.delete cname cs"

text \<open>The key of a request in a cache: its URL up to the fragment.\<close>

definition cache_key :: "string \<Rightarrow> string" where
  "cache_key u = takeWhile (\<lambda>c. c \<noteq> CHR ''#'') u"

text \<open>
  The write of one request and response pair into the cache of that name, replacing what
  the cache had for the request.
\<close>

definition cache_store :: "string \<Rightarrow> string \<Rightarrow> response \<Rightarrow> cache_storage \<Rightarrow> cache_storage" where
  "cache_store cname u r cs =
    (case DAList.lookup cs cname of
       Some c \<Rightarrow> DAList.update cname (c(cache_key u \<mapsto> r)) cs
     | None \<Rightarrow> cs)"

text \<open>
  The platform refuses to cache a partial response (status 206) and a response whose
  \<open>Vary\<close> header lists \<open>*\<close>.
\<close>

definition refused :: "response \<Rightarrow> bool" where
  "refused r \<longleftrightarrow> status r = 206 \<or> ''*'' \<in> set (vary r)"

text \<open>
  \<open>cache.put(request, response)\<close> on the cache of that name: the promise is
  rejected and nothing is stored when the response is refused.
\<close>

definition cache_put :: "string \<Rightarrow> string \<Rightarrow> response \<Rightarrow> cache_storage \<Rightarrow> cache_storage" where
  "cache_put cname u r cs = (if refused r then cs else cache_store cname u r cs)"

text \<open>
  \<open>caches.match(request)\<close>: the first hit over all caches, in creation order, for
  the request's URL without its fragment.
\<close>

fun match_in :: "(string \<times> cache) list \<Rightarrow> string \<Rightarrow> response option" where
  "match_in [] u = None"
| "match_in ((n, c) # rest) u =
    (case c u of Some r \<Rightarrow> Some r | None \<Rightarrow> match_in rest u)"

definition caches_match :: "string \<Rightarrow> cache_storage \<Rightarrow> response option" where
  "caches_match u cs = match_in (DAList.impl_of cs) (cache_key u)"

subsection \<open>Install\<close>

text \<open>
  \<open>cache.addAll\<close> fetches every listed asset and stores them all, or rejects and
  stores nothing when one fetch is rejected, is not an OK response (status 200 to 299),
  or is a response the platform refuses to cache.
\<close>

fun fetch_all :: "network \<Rightarrow> string list \<Rightarrow> (string \<times> response) list option" where
  "fetch_all net [] = Some []"
| "fetch_all net (u # us) =
    (case net u of
       Fulfilled (Some r) \<Rightarrow>
         (if 200 \<le> status r \<and> status r \<le> 299 \<and> \<not> refused r
          then (case fetch_all net us of
                  Some rs \<Rightarrow> Some ((u, r) # rs)
                | None \<Rightarrow> None)
          else None)
     | _ \<Rightarrow> None)"

definition cache_addAll ::
  "network \<Rightarrow> string \<Rightarrow> string list \<Rightarrow> cache_storage \<Rightarrow> unit promise \<times> cache_storage" where
  "cache_addAll net cname us cs =
    (case fetch_all net us of
       Some rs \<Rightarrow> (Fulfilled (), fold (\<lambda>(u, r). cache_store cname u r) rs cs)
     | None \<Rightarrow> (Rejected, cs))"

text \<open>
  The install listener: open the current generation and add the shell assets (their URLs
  are resolved against the worker's origin). The promise given to \<open>waitUntil\<close> is
  rejected, and the install fails, when \<open>addAll\<close> rejects.
\<close>

definition install :: "string \<Rightarrow> network \<Rightarrow> cache_storage \<Rightarrow> unit promise \<times> cache_storage" where
  "install origin net cs =
    cache_addAll net CACHE_NAME (map (\<lambda>p. origin @ p) ASSETS_TO_CACHE)
      (caches_open CACHE_NAME cs)"

subsection \<open>Activate\<close>

text \<open>
  The activate listener: enumerate the cache names, keep those that differ from
  \<open>CACHE_NAME\<close>, delete each of them.
\<close>

definition activate :: "cache_storage \<Rightarrow> cache_storage" where
  "activate cs =
    fold caches_delete (filter (\<lambda>cname. cname \<noteq> CACHE_NAME) (caches_keys cs)) cs"

subsection \<open>Fetch\<close>

definition isNavigationRequest :: "request \<Rightarrow> bool" where
  "isNavigationRequest req \<longleftrightarrow> mode req = ''navigate''"

definition startsWith :: "string \<Rightarrow> string \<Rightarrow> bool" where
  "startsWith s p \<longleftrightarrow> take (length p) s = p"

definition gateway_timeout :: response where
  "gateway_timeout =
     \<lparr>status = 504, statusText = ''Gateway Timeout'', body = '''', vary = []\<rparr>"

text \<open>
  The fetch listener of the network-first worker (cache generation \<open>visitorbook-v6\<close>).
  It returns what the page gets, the cache storage once the write it started has
  settled, and the platform calls in order. The write is started without being awaited
  and its rejection is not handled: the response is returned whether or not the write
  has finished or has stored anything.
\<close>

definition fetch_listener ::
  "string \<Rightarrow> network \<Rightarrow> request \<Rightarrow> cache_storage \<Rightarrow> outcome \<times> cache_storage \<times> effect list" where
  "fetch_listener origin net req cs =
    (if method req \<noteq> ''GET'' then (NotIntercepted, cs, [])
     else if \<not> startsWith (url req) origin then (NotIntercepted, cs, [])
     else
       (case net (url req) of
          Fulfilled None \<Rightarrow> (Responded None, cs, [NetFetch (url req)])
        | Fulfilled (Some r) \<Rightarrow>
            (if status r \<noteq> 200 then (Responded (Some r), cs, [NetFetch (url req)])
             else
               (Responded (Some r),
                cache_put CACHE_NAME (url req) r (caches_open CACHE_NAME cs),
                [NetFetch (url req), CacheOpen CACHE_NAME, CachePut CACHE_NAME (url req)]))
        | Rejected \<Rightarrow>
            (case caches_match (url req) cs of
               Some cached \<Rightarrow>
                 (Responded (Some cached), cs, [NetFetch (url req), CacheMatch (url req)])
             | None \<Rightarrow>
                 (if isNavigationRequest req
                  then (Responded (caches_match (origin @ ''/index.html'') cs), cs,
                        [NetFetch (url req), CacheMatch (url req),
                         CacheMatch (origin @ ''/index.html'')])
                  else (Responded (Some gateway_timeout), cs,
                        [NetFetch (url req), CacheMatch (url req)])))))"

text \<open>
  The fetch listener of \<open>src/sw.js\<close>, the earlier cache-first worker (cache
  generation \<open>visitorbook-v4\<close>): the cache is asked first and the network only on
  a miss; a rejected fetch rejects the promise given to \<open>respondWith\<close>.
\<close>

definition CACHE_NAME_v4 :: string where
  "CACHE_NAME_v4 = ''visitorbook-v4''"

definition fetch_listener_v4 ::
  "string \<Rightarrow> network \<Rightarrow> request \<Rightarrow> cache_storage \<Rightarrow> outcome \<times> cache_storage \<times> effect list" where
  "fetch_listener_v4 origin net req cs =
    (if method req \<noteq> ''GET'' then (NotIntercepted, cs, [])
     else if \<not> startsWith (url req) origin then (NotIntercepted, cs, [])
     else
       (case caches_match (url req) cs of
          Some cached \<Rightarrow> (Responded (Some cached), cs, [CacheMatch (url req)])
        | None \<Rightarrow>
            (case net (url req) of
               Fulfilled None \<Rightarrow>
                 (Responded None, cs, [CacheMatch (url req), NetFetch (url req)])
             | Fulfilled (Some r) \<Rightarrow>
                 (if status r \<noteq> 200
                  then (Responded (Some r), cs, [CacheMatch (url req), NetFetch (url req)])
                  else
                    (Responded (Some r),
                     cache_put CACHE_NAME_v4 (url req) r (caches_open CACHE_NAME_v4 cs),
                     [CacheMatch (url req), NetFetch (url req), CacheOpen CACHE_NAME_v4,
                      CachePut CACHE_NAME_v4 (url req)]))
             | Rejected \<Rightarrow>
                 (RespondRejected, cs, [CacheMatch (url req), NetFetch (url req)]))))"

subsection \<open>The worker's life\<close>

text \<open>
  Serving: the fetch events the active worker handles one after the other, each with the
  network as it is at that moment; what is kept is the cache storage.
\<close>

definition serve :: "string \<Rightarrow> (network \<times> request) list \<Rightarrow> cache_storage \<Rightarrow> cache_storage" where
  "serve origin events cs =
     fold (\<lambda>(net, req) cs'. fst (snd (fetch_listener origin net req cs'))) events cs"

text \<open>A cache of that name exists and has a response for the URL.\<close>

definition cached_in :: "string \<Rightarrow> string \<Rightarrow> cache_storage \<Rightarrow> bool" where
  "cached_in cname u cs \<longleftrightarrow>
     (case DAList.lookup cs cname of
        None \<Rightarrow> False
      | Some c \<Rightarrow> c (cache_key u) \<noteq> None)"

section \<open>Local store (IndexedDB storage module)\<close>

text \<open>
  The storage module is embedded over a model of the IndexedDB engine: one database with
  a version and two object stores, each with a key generator (\<open>autoIncrement\<close>)
  and one index. Every operation of the module takes the state and returns its result
  with the new state; a rejected promise is the error on the left of the sum.
\<close>

definition DB_VERSION :: nat where
  "DB_VERSION = 2"

datatype error = VersionError | NotFoundError | ConstraintError

subsection \<open>Records\<close>

text \<open>
  An image payload is kept as the caller gives it (the application passes data URLs).
  An absent property (\<open>undefined\<close> or \<open>null\<close>) is \<open>None\<close>.
\<close>

type_synonym image = string

text \<open>The argument of \<open>saveEntry\<close>, with whatever timestamp the caller may have put in.\<close>

record entry =
  photo :: "image option"
  signature :: "image option"
  name :: "string option"
  designation :: "string option"
  timestamp :: "string option"

text \<open>The object \<open>saveEntry\<close> builds and stores.\<close>

record entryData =
  photo :: "image option"
  signature :: "image option"
  name :: string
  designation :: string
  timestamp :: string

text \<open>The argument of \<open>addVisitor\<close>, and the object it stores.\<close>

record visitor =
  photo :: "image option"
  name :: "string option"
  designation :: "string option"

record visitorData =
  photo :: "image option"
  name :: "string option"
  designation :: string
  createdAt :: string

text \<open>
  \<open>x || ''\<close> on a text property: the empty string when the property is absent or
  is the empty string (both falsy), the property otherwise.
\<close>

definition or_empty :: "string option \<Rightarrow> string" where
  "or_empty x = (case x of None \<Rightarrow> [] | Some s \<Rightarrow> (if s = [] then [] else s))"

subsection \<open>The clock\<close>

text \<open>
  \<open>new Date()\<close> is the reading of the clock, given here by its UTC fields;
  \<open>toISOString\<close> formats them as \<open>YYYY-MM-DDTHH:mm:ss.sssZ\<close>, the year with a
  sign and six digits outside 0..9999.
\<close>

record date =
  year :: int
  month :: nat
  day :: nat
  hours :: nat
  minutes :: nat
  seconds :: nat
  milliseconds :: nat

definition digit :: "nat \<Rightarrow> char" where
  "digit n = char_of (48 + n mod 10)"

fun pad :: "nat \<Rightarrow> nat \<Rightarrow> string" where
  "pad 0 n = []"
| "pad (Suc w) n = pad w (n div 10) @ [digit n]"

definition year_string :: "int \<Rightarrow> string" where
  "year_string y =
    (if 0 \<le> y \<and> y \<le> 9999 then pad 4 (nat y)
     else (if y < 0 then ''-'' else ''+'') @ pad 6 (nat \<bar>y\<bar>))"

definition toISOString :: "date \<Rightarrow> string" where
  "toISOString d =
    year_string (year d) @ ''-'' @ pad 2 (month d) @ ''-'' @ pad 2 (day d) @ ''T'' @
    pad 2 (hours d) @ '':'' @ pad 2 (minutes d) @ '':'' @ pad 2 (seconds d) @ ''.'' @
    pad 3 (milliseconds d) @ ''Z''"

subsection \<open>Object stores of the engine\<close>

text \<open>
  An object store with \<open>keyPath: 'id'\<close> and \<open>autoIncrement: true\<close>: its records
  in ascending order of their key, the current number of its key generator, and the
  records of its one index, pairs of index key and primary key in ascending order.
  A stored object is read back with its key as its \<open>id\<close>: the pair \<open>(id, object)\<close>.
\<close>

record 'v object_store =
  records :: "(int \<times> 'v) list"
  key_generator :: int
  index :: "(string \<times> int) list"

definition createObjectStore :: "'v object_store" where
  "createObjectStore = \<lparr>records = [], key_generator = 1, index = []\<rparr>"

text \<open>
  \<open>store.add(value)\<close> for a value without an \<open>id\<close>: the key is the current number
  of the generator, which cannot go beyond \<open>2^53\<close>; a key already in the store is
  refused. The index gets a record when the value has an index key.
\<close>

definition store_add ::
  "('v \<Rightarrow> string option) \<Rightarrow> 'v \<Rightarrow> 'v object_store \<Rightarrow> error + (int \<times> 'v object_store)" where
  "store_add index_key v st =
    (let k = key_generator st in
     if 2 ^ 53 < k then Inl ConstraintError
     else if k \<in> fst ` set (records st) then Inl ConstraintError
     else Inr (k,
       \<lparr>records = insort_key fst (k, v) (records st),
        key_generator = k + 1,
        index = (case index_key v of
                   None \<Rightarrow> index st
                 | Some t \<Rightarrow> insort (t, k) (index st))\<rparr>))"

definition store_get :: "int \<Rightarrow> 'v object_store \<Rightarrow> (int \<times> 'v) option" where
  "store_get k st = map_option (Pair k) (map_of (records st) k)"

definition store_delete :: "int \<Rightarrow> 'v object_store \<Rightarrow> 'v object_store" where
  "store_delete k st =
    \<lparr>records = filter (\<lambda>(k', v). k' \<noteq> k) (records st),
     key_generator = key_generator st,
     index = filter (\<lambda>(t, k'). k' \<noteq> k) (index st)\<rparr>"

text \<open>Clearing a store does not reset its key generator.\<close>

definition store_clear :: "'v object_store \<Rightarrow> 'v object_store" where
  "store_clear st = \<lparr>records = [], key_generator = key_generator st, index = []\<rparr>"

definition store_count :: "'v object_store \<Rightarrow> nat" where
  "store_count st = length (records st)"

definition store_getAll :: "'v object_store \<Rightarrow> (int \<times> 'v) list" where
  "store_getAll st = records st"

text \<open>
  \<open>index.openCursor(null, 'prev')\<close> walks the index records from the last to the
  first. The handler of the source pushes \<open>cursor.value\<close> (the stored object of the
  index record's primary key) and continues, and resolves with the array when the
  cursor is \<open>null\<close>.
\<close>

definition openCursor_prev :: "'v object_store \<Rightarrow> (string \<times> int) list" where
  "openCursor_prev st = rev (index st)"

fun cursor_loop ::
  "'v object_store \<Rightarrow> (string \<times> int) list \<Rightarrow> (int \<times> 'v) list \<Rightarrow> (int \<times> 'v) list" where
  "cursor_loop st [] entries = entries"
| "cursor_loop st ((t, k) # cursor) entries =
    (case store_get k st of
       Some value \<Rightarrow> cursor_loop st cursor (entries @ [value])
     | None \<Rightarrow> cursor_loop st cursor entries)"

subsection \<open>The module state and \<open>initDB\<close>\<close>

text \<open>
  The module variable \<open>db\<close> (a connection handle or \<open>null\<close>) and the engine's
  side: the stored version of the database (0 when it does not exist yet), its two
  object stores, the number of connections handed out, and two counters of what has
  happened: calls of \<open>indexedDB.open\<close> and runs of the upgrade handler.
\<close>

record storage =
  db :: "nat option"
  version :: nat
  entries :: "entryData object_store option"
  visitors :: "visitorData object_store option"
  connections :: nat
  opens :: nat
  upgrades :: nat

definition fresh :: storage where
  "fresh = \<lparr>db = None, version = 0, entries = None, visitors = None,
            connections = 0, opens = 0, upgrades = 0\<rparr>"

text \<open>The upgrade handler creates each object store that is not there.\<close>

definition onupgradeneeded :: "storage \<Rightarrow> storage" where
  "onupgradeneeded s =
    s\<lparr>entries := (case entries s of None \<Rightarrow> Some createObjectStore | Some st \<Rightarrow> Some st),
      visitors := (case visitors s of None \<Rightarrow> Some createObjectStore | Some st \<Rightarrow> Some st)\<rparr>"

text \<open>\<open>indexedDB.open(DB_NAME, DB_VERSION)\<close> is called: a request is under way.\<close>

definition open_request :: "storage \<Rightarrow> storage" where
  "open_request s = s\<lparr>opens := opens s + 1\<rparr>"

text \<open>
  The engine serves an open request. A stored version above the requested one is an
  error (\<open>onerror\<close>: the promise is rejected). A stored version below it runs the
  upgrade handler and sets the version. Then \<open>onsuccess\<close> stores the new connection
  in \<open>db\<close> and resolves with it.
\<close>

definition open_complete :: "storage \<Rightarrow> (error + nat) \<times> storage" where
  "open_complete s =
    (if DB_VERSION < version s then (Inl VersionError, s)
     else
       (let s1 = (if version s < DB_VERSION
                  then (onupgradeneeded s)\<lparr>version := DB_VERSION, upgrades := upgrades s + 1\<rparr>
                  else s);
            h = connections s1
        in (Inr h, s1\<lparr>db := Some h, connections := h + 1\<rparr>)))"

text \<open>\<open>initDB\<close> called and awaited, nothing else running in between.\<close>

definition initDB :: "storage \<Rightarrow> (error + nat) \<times> storage" where
  "initDB s =
    (case db s of
       Some h \<Rightarrow> (Inr h, s)
     | None \<Rightarrow> open_complete (open_request s))"

text \<open>
  Calls of \<open>initDB\<close> that are not awaited one after the other: the event loop runs a
  sequence of events, each either a call of \<open>initDB\<close> (which resolves at once when
  \<open>db\<close> is set, and otherwise leaves an open request pending) or the engine
  settling the oldest pending open request. The state is the storage, the number of
  pending requests, and the results of the calls in the order they settled.
\<close>

datatype event = Call | Settle

type_synonym schedule_state = "storage \<times> nat \<times> (error + nat) list"

fun step :: "event \<Rightarrow> schedule_state \<Rightarrow> schedule_state" where
  "step Call (s, pending, results) =
    (case db s of
       Some h \<Rightarrow> (s, pending, results @ [Inr h])
     | None \<Rightarrow> (open_request s, Suc pending, results))"
| "step Settle (s, pending, results) =
    (case pending of
       0 \<Rightarrow> (s, pending, results)
     | Suc p \<Rightarrow> (case open_complete s of (r, s') \<Rightarrow> (s', p, results @ [r])))"

definition run_events :: "event list \<Rightarrow> schedule_state \<Rightarrow> schedule_state" where
  "run_events evs st = fold step evs st"

subsection \<open>Feedback entries\<close>

text \<open>
  The start of every entry operation: \<open>await initDB()\<close>, then a transaction on the
  entries store, which the engine refuses when the store does not exist.
\<close>

definition entries_transaction :: "storage \<Rightarrow> (error + entryData object_store) \<times> storage" where
  "entries_transaction s =
    (case initDB s of
       (Inl err, s1) \<Rightarrow> (Inl err, s1)
     | (Inr h, s1) \<Rightarrow>
         (case entries s1 of
            None \<Rightarrow> (Inl NotFoundError, s1)
          | Some st \<Rightarrow> (Inr st, s1)))"

definition entry_timestamp :: "entryData \<Rightarrow> string option" where
  "entry_timestamp d = Some (entryData.timestamp d)"

definition saveEntry :: "storage \<Rightarrow> date \<Rightarrow> entry \<Rightarrow> (error + int) \<times> storage" where
  "saveEntry s now entry =
    (case entries_transaction s of
       (Inl err, s1) \<Rightarrow> (Inl err, s1)
     | (Inr st, s1) \<Rightarrow>
         (let entryData =
            \<lparr>entryData.photo = entry.photo entry,
             signature = entry.signature entry,
             name = or_empty (entry.name entry),
             designation = or_empty (entry.designation entry),
             timestamp = toISOString now\<rparr>
          in case store_add entry_timestamp entryData st of
               Inl err \<Rightarrow> (Inl err, s1)
             | Inr (k, st') \<Rightarrow> (Inr k, s1\<lparr>entries := Some st'\<rparr>)))"

definition getAllEntries :: "storage \<Rightarrow> (error + (int \<times> entryData) list) \<times> storage" where
  "getAllEntries s =
    (case entries_transaction s of
       (Inl err, s1) \<Rightarrow> (Inl err, s1)
     | (Inr st, s1) \<Rightarrow> (Inr (cursor_loop st (openCursor_prev st) []), s1))"

text \<open>The result of \<open>getEntry\<close> is \<open>None\<close> (\<open>undefined\<close>) when no record has the key.\<close>

definition getEntry :: "storage \<Rightarrow> int \<Rightarrow> (error + (int \<times> entryData) option) \<times> storage" where
  "getEntry s i =
    (case entries_transaction s of
       (Inl err, s1) \<Rightarrow> (Inl err, s1)
     | (Inr st, s1) \<Rightarrow> (Inr (store_get i st), s1))"

definition deleteEntry :: "storage \<Rightarrow> int \<Rightarrow> (error + unit) \<times> storage" where
  "deleteEntry s i =
    (case entries_transaction s of
       (Inl err, s1) \<Rightarrow> (Inl err, s1)
     | (Inr st, s1) \<Rightarrow> (Inr (), s1\<lparr>entries := Some (store_delete i st)\<rparr>))"

definition getEntryCount :: "storage \<Rightarrow> (error + nat) \<times> storage" where
  "getEntryCount s =
    (case entries_transaction s of
       (Inl err, s1) \<Rightarrow> (Inl err, s1)
     | (Inr st, s1) \<Rightarrow> (Inr (store_count st), s1))"

definition deleteAllEntries :: "storage \<Rightarrow> (error + unit) \<times> storage" where
  "deleteAllEntries s =
    (case entries_transaction s of
       (Inl err, s1) \<Rightarrow> (Inl err, s1)
     | (Inr st, s1) \<Rightarrow> (Inr (), s1\<lparr>entries := Some (store_clear st)\<rparr>))"

subsection \<open>Pre-registered visitors\<close>

definition visitors_transaction :: "storage \<Rightarrow> (error + visitorData object_store) \<times> storage" where
  "visitors_transaction s =
    (case initDB s of
       (Inl err, s1) \<Rightarrow> (Inl err, s1)
     | (Inr h, s1) \<Rightarrow>
         (case visitors s1 of
            None \<Rightarrow> (Inl NotFoundError, s1)
          | Some st \<Rightarrow> (Inr st, s1)))"

definition addVisitor :: "storage \<Rightarrow> date \<Rightarrow> visitor \<Rightarrow> (error + int) \<times> storage" where
  "addVisitor s now visitor =
    (case visitors_transaction s of
       (Inl err, s1) \<Rightarrow> (Inl err, s1)
     | (Inr st, s1) \<Rightarrow>
         (let visitorData =
            \<lparr>visitorData.photo = visitor.photo visitor,
             name = visitor.name visitor,
             designation = or_empty (visitor.designation visitor),
             createdAt = toISOString now\<rparr>
          in case store_add visitorData.name visitorData st of
               Inl err \<Rightarrow> (Inl err, s1)
             | Inr (k, st') \<Rightarrow> (Inr k, s1\<lparr>visitors := Some st'\<rparr>)))"

definition getAllVisitors :: "storage \<Rightarrow> (error + (int \<times> visitorData) list) \<times> storage" where
  "getAllVisitors s =
    (case visitors_transaction s of
       (Inl err, s1) \<Rightarrow> (Inl err, s1)
     | (Inr st, s1) \<Rightarrow> (Inr (store_getAll st), s1))"

definition getVisitor :: "storage \<Rightarrow> int \<Rightarrow> (error + (int \<times> visitorData) option) \<times> storage" where
  "getVisitor s i =
    (case visitors_transaction s of
       (Inl err, s1) \<Rightarrow> (Inl err, s1)
     | (Inr st, s1) \<Rightarrow> (Inr (store_get i st), s1))"

definition deleteVisitor :: "storage \<Rightarrow> int \<Rightarrow> (error + unit) \<times> storage" where
  "deleteVisitor s i =
    (case visitors_transaction s of
       (Inl err, s1) \<Rightarrow> (Inl err, s1)
     | (Inr st, s1) \<Rightarrow> (Inr (), s1\<lparr>visitors := Some (store_delete i st)\<rparr>))"

text \<open>
  A run of the module: operations called and awaited one after the other, from the
  given state. Reads are left out: they change the state no more than \<open>initDB\<close> does.
\<close>

datatype operation =
  InitDB
  | SaveEntry date entry
  | DeleteEntry int
  | DeleteAllEntries
  | AddVisitor date visitor
  | DeleteVisitor int

fun perform :: "operation \<Rightarrow> storage \<Rightarrow> storage" where
  "perform InitDB s = snd (initDB s)"
| "perform (SaveEntry now e) s = snd (saveEntry s now e)"
| "perform (DeleteEntry i) s = snd (deleteEntry s i)"
| "perform DeleteAllEntries s = snd (deleteAllEntries s)"
| "perform (AddVisitor now v) s = snd (addVisitor s now v)"
| "perform (DeleteVisitor i) s = snd (deleteVisitor s i)"

definition run :: "operation list \<Rightarrow> storage \<Rightarrow> storage" where
  "run ops s = fold perform ops s"

subsection \<open>Well-formed stores\<close>

text \<open>
  What the engine keeps true of an object store: keys are distinct and below the current
  number of the key generator, and the index is sorted, without duplicates, and holds exactly one record for each stored object that
  has an index key (\<open>f\<close> reads the index key off an object).
\<close>

definition wf_store :: "('v \<Rightarrow> string option) \<Rightarrow> 'v object_store \<Rightarrow> bool" where
  "wf_store f st \<longleftrightarrow>
     distinct (map fst (records st)) \<and>
     (\<forall>k \<in> fst ` set (records st). k < key_generator st) \<and>
     sorted (index st) \<and>
     distinct (index st) \<and>
     set (index st) = {(t, k). \<exists>v. (k, v) \<in> set (records st) \<and> f v = Some t}"

text \<open>
  What holds of the storage in every state the module reaches from a browser without
  the database: the version never exceeds \<open>DB_VERSION\<close>, both stores exist once the
  version is \<open>DB_VERSION\<close>, a connection is only held at that version, and both
  stores are well formed.
\<close>

definition inv :: "storage \<Rightarrow> bool" where
  "inv s \<longleftrightarrow>
     version s \<le> DB_VERSION \<and>
     (version s = DB_VERSION \<longrightarrow> entries s \<noteq> None \<and> visitors s \<noteq> None) \<and>
     (db s \<noteq> None \<longrightarrow> version s = DB_VERSION) \<and>
     (\<forall>st. entries s = Some st \<longrightarrow> wf_store entry_timestamp st) \<and>
     (\<forall>st. visitors s = Some st \<longrightarrow> wf_store visitorData.name st)"

text \<open>
  The runs of the upgrade handler so far, plus one while the stored version is still
  below \<open>DB_VERSION\<close>: no event changes this number.
\<close>

definition upgrade_budget :: "storage \<Rightarrow> nat" where
  "upgrade_budget s = upgrades s + (if version s < DB_VERSION then 1 else 0)"

section \<open>Blobs and data URLs\<close>



subsection \<open>Base64\<close>











subsection \<open>Data URLs\<close>

















subsection \<open>The two conversions of the module\<close>



section \<open>Properties of the gateway\<close>

subsection \<open>Cache storage\<close>

lemma impl_of_fold_delete:
  "DAList.impl_of (fold caches_delete ns cs) = filter (\<lambda>(k, v). k \<notin> set ns) (DAList.impl_of cs)"
proof (induction ns arbitrary: cs)
  case Nil
  then show ?case by simp
next
  case (Cons n ns)
  have "DAList.impl_of (caches_delete n cs) = filter (\<lambda>(k, v). k \<noteq> n) (DAList.impl_of cs)"
    by (auto simp: caches_delete_def DAList.delete.rep_eq AList.delete_eq case_prod_unfold intro: filter_cong)
  with Cons show ?case
    by (auto simp: case_prod_unfold intro: filter_cong)
qed

lemma keys_activate:
  "caches_keys (activate cs) = filter (\<lambda>n. n = CACHE_NAME) (caches_keys cs)"
proof -
  have "filter (\<lambda>(k, v). k \<notin> set (filter (\<lambda>name. name \<noteq> CACHE_NAME) (map fst xs))) xs
        = filter (\<lambda>(k, v). k = CACHE_NAME) xs" for xs :: "(string \<times> cache) list"
    by (rule filter_cong) force+
  then show ?thesis
    unfolding activate_def caches_keys_def impl_of_fold_delete
    by (simp add: filter_map comp_def case_prod_unfold)
qed

lemma distinct_filter_eq:
  "distinct xs \<Longrightarrow> filter (\<lambda>n. n = a) xs = (if a \<in> set xs then [a] else [])"
  by (induction xs) (auto simp: filter_empty_conv)

lemma keys_activate_if:
  "caches_keys (activate cs) = (if CACHE_NAME \<in> set (caches_keys cs) then [CACHE_NAME] else [])"
proof -
  have "distinct (caches_keys cs)" by (simp add: caches_keys_def)
  then show ?thesis unfolding keys_activate by (rule distinct_filter_eq)
qed

lemma lookup_activate:
  "DAList.lookup (activate cs) CACHE_NAME = DAList.lookup cs CACHE_NAME"
proof -
  have "DAList.lookup (fold caches_delete ns cs) k = DAList.lookup cs k" if "k \<notin> set ns" for ns k
    using that by (induction ns arbitrary: cs) (auto simp: caches_delete_def)
  then show ?thesis by (simp add: activate_def)
qed

lemma keys_caches_open: "set (caches_keys (caches_open n cs)) = insert n (set (caches_keys cs))"
  by (auto simp: caches_keys_def caches_open_def DAList.update.rep_eq DAList.lookup.rep_eq
      AList.dom_update split: option.splits dest: map_of_eq_None_iff [THEN iffD1] weak_map_of_SomeI
      simp: rev_image_eqI map_of_eq_None_iff)

lemma keys_cache_store: "set (caches_keys (cache_store n u r cs)) = set (caches_keys cs)"
  by (auto simp: caches_keys_def cache_store_def DAList.update.rep_eq DAList.lookup.rep_eq
      AList.dom_update split: option.splits  dest: map_of_SomeD
      simp: rev_image_eqI)

lemma keys_fold_cache_store:
  "set (caches_keys (fold (\<lambda>(u, r). cache_store n u r) rs cs)) = set (caches_keys cs)"
  by (induction rs arbitrary: cs) (auto simp: keys_cache_store)

lemma install_has_current:
  "CACHE_NAME \<in> set (caches_keys (snd (install origin net cs)))"
  by (simp add: install_def cache_addAll_def keys_fold_cache_store keys_caches_open
      split: option.splits)

lemma lookup_cache_store_open:
  "\<exists>c. DAList.lookup (cache_store n u r (caches_open n cs)) n = Some c \<and>
        c (cache_key u) = Some r"
  by (auto simp: cache_store_def caches_open_def split: option.splits)

lemma lookup_cache_put_open:
  "\<not> refused r \<Longrightarrow>
   \<exists>c. DAList.lookup (cache_put n u r (caches_open n cs)) n = Some c \<and>
        c (cache_key u) = Some r"
  using lookup_cache_store_open [of n u r cs] by (simp add: cache_put_def)

lemma cache_put_refused: "refused r \<Longrightarrow> cache_put n u r cs = cs"
  by (simp add: cache_put_def)

lemma lookup_cache_store_open_eq:
  "DAList.lookup (cache_store n u r (caches_open n cs)) n =
     Some ((case DAList.lookup cs n of Some c0 \<Rightarrow> c0 | None \<Rightarrow> Map.empty)(cache_key u \<mapsto> r))"
  by (auto simp: cache_store_def caches_open_def split: option.splits)

lemma refused_200: "status r = 200 \<Longrightarrow> refused r \<longleftrightarrow> ''*'' \<in> set (vary r)"
  by (simp add: refused_def)

subsection \<open>The shell document stays cached\<close>

lemma cached_in_caches_open: "cached_in n u cs \<Longrightarrow> cached_in n u (caches_open m cs)"
  by (cases "m = n") (auto simp: cached_in_def caches_open_def split: option.splits)

lemma cached_in_cache_store: "cached_in n u cs \<Longrightarrow> cached_in n u (cache_store m u' r cs)"
  by (cases "m = n") (auto simp: cached_in_def cache_store_def split: option.splits)

lemma cached_in_cache_put: "cached_in n u cs \<Longrightarrow> cached_in n u (cache_put m u' r cs)"
  by (simp add: cache_put_def cached_in_cache_store)

lemma lookup_caches_open: "DAList.lookup (caches_open n cs) n \<noteq> None"
  by (auto simp: caches_open_def split: option.splits)

lemma lookup_cache_store:
  "DAList.lookup cs n \<noteq> None \<Longrightarrow> DAList.lookup (cache_store m u r cs) n \<noteq> None"
  by (cases "m = n") (auto simp: cache_store_def split: option.splits)

lemma cache_store_cached: "DAList.lookup cs n \<noteq> None \<Longrightarrow> cached_in n u (cache_store n u r cs)"
  by (auto simp: cached_in_def cache_store_def split: option.splits)

lemma cached_in_fold_store:
  "cached_in n u cs \<Longrightarrow> cached_in n u (fold (\<lambda>(u', r). cache_store n u' r) rs cs)"
  by (induction rs arbitrary: cs) (auto simp: cached_in_cache_store)

lemma fold_store_cached:
  assumes "u \<in> fst ` set rs" and "DAList.lookup cs n \<noteq> None"
  shows "cached_in n u (fold (\<lambda>(u', r). cache_store n u' r) rs cs)"
  using assms
proof (induction rs arbitrary: cs)
  case Nil
  then show ?case by simp
next
  case (Cons p rs)
  obtain u' r' where p: "p = (u', r')" by (cases p)
  show ?case
  proof (cases "u' = u")
    case True
    from cache_store_cached [OF Cons.prems(2), of u r'] show ?thesis
      by (simp add: p True cached_in_fold_store)
  next
    case False
    with Cons.prems(1) have "u \<in> fst ` set rs" by (auto simp: p)
    from Cons.IH [OF this lookup_cache_store [OF Cons.prems(2)]] show ?thesis by (simp add: p)
  qed
qed

lemma fetch_all_keys: "fetch_all net us = Some rs \<Longrightarrow> map fst rs = us"
  by (induction us arbitrary: rs)
    (auto split: promise.splits option.splits if_splits)

lemma install_caches_shell:
  assumes "fst (install origin net cs) = Fulfilled ()"
  shows "cached_in CACHE_NAME (origin @ ''/index.html'') (snd (install origin net cs))"
proof -
  let ?us = "map (\<lambda>p. origin @ p) ASSETS_TO_CACHE"
  from assms obtain rs where rs: "fetch_all net ?us = Some rs"
    by (auto simp: install_def cache_addAll_def split: option.splits)
  have "origin @ ''/index.html'' \<in> set ?us" by (simp add: ASSETS_TO_CACHE_def)
  with fetch_all_keys [OF rs] have "origin @ ''/index.html'' \<in> fst ` set rs"
    by (metis set_map)
  from fold_store_cached [OF this lookup_caches_open] rs show ?thesis
    by (simp add: install_def cache_addAll_def)
qed

lemma cached_in_activate: "cached_in CACHE_NAME u (activate cs) = cached_in CACHE_NAME u cs"
  by (simp add: cached_in_def lookup_activate)

lemma cached_in_fetch_listener:
  "cached_in n u cs \<Longrightarrow> cached_in n u (fst (snd (fetch_listener origin net req cs)))"
  by (auto simp: fetch_listener_def cached_in_cache_put cached_in_caches_open
      split: promise.splits option.splits)

lemma cached_in_serve: "cached_in n u cs \<Longrightarrow> cached_in n u (serve origin events cs)"
  unfolding serve_def
  by (induction events arbitrary: cs) (auto simp: cached_in_fetch_listener)

lemma match_in_hit: "map_of xs n = Some c \<Longrightarrow> c u \<noteq> None \<Longrightarrow> match_in xs u \<noteq> None"
  by (induction xs u rule: match_in.induct) (auto split: option.splits if_splits)

lemma cached_in_match:
  assumes "cached_in n u cs"
  shows "caches_match u cs \<noteq> None"
proof -
  from assms obtain c where "map_of (DAList.impl_of cs) n = Some c"
    and "c (cache_key u) \<noteq> None"
    by (auto simp: cached_in_def DAList.lookup.rep_eq split: option.splits)
  then show ?thesis unfolding caches_match_def by (rule match_in_hit)
qed

section \<open>Properties of the store\<close>

subsection \<open>Object stores stay well formed\<close>

lemma wf_createObjectStore: "wf_store f createObjectStore"
  by (simp add: wf_store_def createObjectStore_def)

lemma wf_store_clear: "wf_store f (store_clear st)"
  by (simp add: wf_store_def store_clear_def)

lemma wf_store_delete: "wf_store f st \<Longrightarrow> wf_store f (store_delete k st)"
  unfolding wf_store_def store_delete_def
  by (auto simp: distinct_map_filter sorted_wrt_filter)

lemma distinct_fst_insort_key:
  "distinct (map fst (insort_key fst (k, v) xs)) \<longleftrightarrow> k \<notin> fst ` set xs \<and> distinct (map fst xs)"
  by (induction xs) (auto simp: set_insort_key)

lemma wf_store_add:
  assumes "wf_store f st" and "store_add f v st = Inr (k, st')"
  shows "wf_store f st'"
proof -
  from assms(2) have k: "k = key_generator st" and notin: "k \<notin> fst ` set (records st)"
    and st': "st' = \<lparr>records = insort_key fst (k, v) (records st), key_generator = k + 1,
        index = (case f v of None \<Rightarrow> index st | Some t \<Rightarrow> insort (t, k) (index st))\<rparr>"
    by (auto simp: store_add_def Let_def split: if_splits)
  have d: "distinct (map fst (records st'))"
    using assms(1) notin by (simp add: st' wf_store_def distinct_fst_insort_key)
  have b: "\<forall>j \<in> fst ` set (records st'). j < key_generator st'"
    using assms(1) by (auto simp: st' k wf_store_def set_insort_key)
  show ?thesis
  proof (cases "f v")
    case None
    then show ?thesis using assms(1) notin d b
      unfolding wf_store_def by (auto simp: st' set_insort_key)
  next
    case (Some t)
    have "(t, k) \<notin> set (index st)" using assms(1) notin by (force simp: wf_store_def)
    then show ?thesis using assms(1) notin d b Some
      unfolding wf_store_def by (auto simp: st' set_insort_key sorted_insort distinct_insort)
  qed
qed

lemma cursor_loop_append: "cursor_loop st c acc = acc @ cursor_loop st c []"
proof (induction c arbitrary: acc)
  case Nil
  then show ?case by simp
next
  case (Cons a c)
  obtain t k where a: "a = (t, k)" by (cases a)
  show ?case
  proof (cases "store_get k st")
    case None
    then show ?thesis using Cons [of acc] by (simp add: a)
  next
    case (Some r)
    then show ?thesis using Cons [of "acc @ [r]"] Cons [of "[r]"] by (simp add: a)
  qed
qed

lemma cursor_loop_map:
  assumes "\<forall>(t, k) \<in> set c. k \<in> fst ` set (records st)"
  shows "cursor_loop st c [] = map (\<lambda>(t, k). (k, the (map_of (records st) k))) c"
  using assms
proof (induction c)
  case Nil
  then show ?case by simp
next
  case (Cons a c)
  obtain t k where a: "a = (t, k)" by (cases a)
  from Cons.prems have "k \<in> fst ` set (records st)" by (simp add: a)
  then obtain v where v: "map_of (records st) k = Some v"
    by (metis domD dom_map_of_conv_image_fst)
  have "cursor_loop st (a # c) [] = [(k, v)] @ cursor_loop st c []"
    using cursor_loop_append [of st c "[(k, v)]"] by (simp add: a store_get_def v)
  then show ?case using Cons by (simp add: a v)
qed

lemma sorted_map_fst:
  fixes xs :: "('a::linorder \<times> 'b::linorder) list"
  shows "sorted xs \<Longrightarrow> sorted (map fst xs)"
  by (induction xs) (auto simp: less_eq_prod_def)

lemma getAll_wf:
  assumes "wf_store entry_timestamp st"
  defines "es \<equiv> cursor_loop st (openCursor_prev st) []"
  shows "sorted (rev (map (\<lambda>(k, d). entryData.timestamp d) es))"
    and "distinct es" and "set es = set (records st)"
proof -
  let ?g = "\<lambda>(t, k). (k, the (map_of (records st) k))"
  from assms(1) have dk: "distinct (map fst (records st))" and so: "sorted (index st)"
    and di: "distinct (index st)"
    and ix: "set (index st) = {(t, k). \<exists>v. (k, v) \<in> set (records st) \<and> entry_timestamp v = Some t}"
    by (auto simp: wf_store_def)
  have mem: "\<forall>(t, k) \<in> set (rev (index st)). k \<in> fst ` set (records st)"
    using ix by force
  have es: "es = map ?g (rev (index st))"
    unfolding es_def openCursor_prev_def using cursor_loop_map [OF mem] .
  have val: "entryData.timestamp (the (map_of (records st) k)) = t \<and>
      (k, the (map_of (records st) k)) \<in> set (records st)"
    if "(t, k) \<in> set (index st)" for t k
  proof -
    from that ix obtain w where w: "(k, w) \<in> set (records st)" "entry_timestamp w = Some t"
      by auto
    with dk have "map_of (records st) k = Some w" by simp
    with w show ?thesis by (simp add: entry_timestamp_def)
  qed
  have ts: "map (\<lambda>(k, d). entryData.timestamp d) es = map fst (rev (index st))"
    unfolding es by (auto simp: val)
  show "sorted (rev (map (\<lambda>(k, d). entryData.timestamp d) es))"
    unfolding ts using sorted_map_fst [OF so] by (simp add: rev_map)
  have inj: "inj_on ?g (set (index st))"
    by (auto simp: inj_on_def dest: val)
  show "distinct es" unfolding es using di inj by (simp add: distinct_map)
  show "set es = set (records st)"
  proof
    show "set es \<subseteq> set (records st)" unfolding es by (auto dest: val)
    show "set (records st) \<subseteq> set es"
    proof
      fix x assume x: "x \<in> set (records st)"
      obtain k v where kv: "x = (k, v)" by (cases x)
      with x ix have i: "(entryData.timestamp v, k) \<in> set (index st)"
        by (auto simp: entry_timestamp_def)
      from x kv dk have "map_of (records st) k = Some v" by simp
      then have "?g (entryData.timestamp v, k) = x" by (simp add: kv)
      with i show "x \<in> set es" unfolding es by force
    qed
  qed
qed

subsection \<open>The module keeps its invariant\<close>

lemma initDB_ok:
  assumes "initDB s = (Inr h, s1)"
  shows "db s1 = Some h"
    and "entries s = Some st \<Longrightarrow> entries s1 = Some st"
    and "visitors s = Some vs \<Longrightarrow> visitors s1 = Some vs"
  using assms
  by (auto simp: initDB_def open_complete_def open_request_def onupgradeneeded_def Let_def
      split: option.splits if_splits)

lemma initDB_inv:
  assumes "inv s"
  shows "\<exists>h s1. initDB s = (Inr h, s1) \<and> inv s1 \<and> db s1 = Some h \<and>
           entries s1 \<noteq> None \<and> visitors s1 \<noteq> None"
proof (cases "db s")
  case None
  then show ?thesis using assms
    by (auto simp: initDB_def open_complete_def open_request_def onupgradeneeded_def Let_def
        inv_def wf_createObjectStore split: option.splits)
next
  case (Some h)
  then show ?thesis using assms by (auto simp: initDB_def inv_def)
qed

lemma entries_transaction_ok:
  assumes "entries_transaction s = (Inr st, s1)"
  shows "entries s1 = Some st" and "db s1 \<noteq> None"
    and "\<exists>h. initDB s = (Inr h, s1)"
  using assms initDB_ok(1) [of s _ s1]
  by (auto simp: entries_transaction_def split: prod.splits sum.splits option.splits)

lemma entries_transaction_set:
  assumes "db s \<noteq> None"
  shows "entries_transaction s =
    (case entries s of None \<Rightarrow> (Inl NotFoundError, s) | Some st \<Rightarrow> (Inr st, s))"
  using assms by (auto simp: entries_transaction_def initDB_def)

lemma visitors_transaction_set:
  assumes "db s \<noteq> None"
  shows "visitors_transaction s =
    (case visitors s of None \<Rightarrow> (Inl NotFoundError, s) | Some st \<Rightarrow> (Inr st, s))"
  using assms by (auto simp: visitors_transaction_def initDB_def)

lemma entries_transaction_inv:
  assumes "inv s"
  shows "\<exists>st s1. entries_transaction s = (Inr st, s1) \<and> inv s1 \<and> entries s1 = Some st \<and>
           db s1 \<noteq> None"
  using initDB_inv [OF assms] by (auto simp: entries_transaction_def)

lemma visitors_transaction_inv:
  assumes "inv s"
  shows "\<exists>st s1. visitors_transaction s = (Inr st, s1) \<and> inv s1 \<and> visitors s1 = Some st \<and>
           db s1 \<noteq> None"
  using initDB_inv [OF assms] by (auto simp: visitors_transaction_def)

lemma inv_entries_update:
  "inv s \<Longrightarrow> wf_store entry_timestamp st \<Longrightarrow> inv (s\<lparr>entries := Some st\<rparr>)"
  by (simp add: inv_def)

lemma inv_visitors_update:
  "inv s \<Longrightarrow> wf_store visitorData.name st \<Longrightarrow> inv (s\<lparr>visitors := Some st\<rparr>)"
  by (simp add: inv_def)

lemma inv_wf_entries: "inv s \<Longrightarrow> entries s = Some st \<Longrightarrow> wf_store entry_timestamp st"
  by (simp add: inv_def)

lemma inv_wf_visitors: "inv s \<Longrightarrow> visitors s = Some st \<Longrightarrow> wf_store visitorData.name st"
  by (simp add: inv_def)

lemma inv_perform:
  assumes "inv s"
  shows "inv (perform op s)"
proof (cases op)
  case InitDB
  then show ?thesis using initDB_inv [OF assms] by auto
next
  case (SaveEntry now e)
  from entries_transaction_inv [OF assms] obtain st s1 where
    t: "entries_transaction s = (Inr st, s1)" "inv s1" "entries s1 = Some st" by blast
  then have wf: "wf_store entry_timestamp st" by (simp add: inv_wf_entries)
  define d where "d = \<lparr>entryData.photo = entry.photo e, signature = entry.signature e,
     name = or_empty (entry.name e), designation = or_empty (entry.designation e),
     timestamp = toISOString now\<rparr>"
  show ?thesis
  proof (cases "store_add entry_timestamp d st")
    case (Inl err)
    then show ?thesis using t SaveEntry by (simp add: saveEntry_def d_def)
  next
    case (Inr p)
    obtain k st' where p: "p = (k, st')" by (cases p)
    from wf_store_add [OF wf] Inr p have "wf_store entry_timestamp st'" by simp
    then have "inv (s1\<lparr>entries := Some st'\<rparr>)" using t(2) by (rule inv_entries_update [rotated])
    then show ?thesis using t SaveEntry Inr p by (simp add: saveEntry_def d_def)
  qed
next
  case (DeleteEntry i)
  from entries_transaction_inv [OF assms] obtain st s1 where
    t: "entries_transaction s = (Inr st, s1)" "inv s1" "entries s1 = Some st" by blast
  then have wf: "wf_store entry_timestamp (store_delete i st)"
    by (simp add: inv_wf_entries wf_store_delete)
  from inv_entries_update [OF t(2) wf] show ?thesis using t DeleteEntry
    by (simp add: deleteEntry_def)
next
  case DeleteAllEntries
  from entries_transaction_inv [OF assms] obtain st s1 where
    t: "entries_transaction s = (Inr st, s1)" "inv s1" "entries s1 = Some st" by blast
  from inv_entries_update [OF t(2) wf_store_clear] show ?thesis using t DeleteAllEntries
    by (simp add: deleteAllEntries_def)
next
  case (AddVisitor now v)
  from visitors_transaction_inv [OF assms] obtain st s1 where
    t: "visitors_transaction s = (Inr st, s1)" "inv s1" "visitors s1 = Some st" by blast
  then have wf: "wf_store visitorData.name st" by (simp add: inv_wf_visitors)
  define d where "d = \<lparr>visitorData.photo = visitor.photo v, name = visitor.name v,
     designation = or_empty (visitor.designation v), createdAt = toISOString now\<rparr>"
  show ?thesis
  proof (cases "store_add visitorData.name d st")
    case (Inl err)
    then show ?thesis using t AddVisitor by (simp add: addVisitor_def d_def)
  next
    case (Inr p)
    obtain k st' where p: "p = (k, st')" by (cases p)
    from wf_store_add [OF wf] Inr p have "wf_store visitorData.name st'" by simp
    then have "inv (s1\<lparr>visitors := Some st'\<rparr>)" using t(2) by (rule inv_visitors_update [rotated])
    then show ?thesis using t AddVisitor Inr p by (simp add: addVisitor_def d_def)
  qed
next
  case (DeleteVisitor i)
  from visitors_transaction_inv [OF assms] obtain st s1 where
    t: "visitors_transaction s = (Inr st, s1)" "inv s1" "visitors s1 = Some st" by blast
  then have wf: "wf_store visitorData.name (store_delete i st)"
    by (simp add: inv_wf_visitors wf_store_delete)
  from inv_visitors_update [OF t(2) wf] show ?thesis using t DeleteVisitor
    by (simp add: deleteVisitor_def)
qed

lemma inv_fresh: "inv fresh"
  by (simp add: inv_def fresh_def DB_VERSION_def)

lemma inv_run: "inv s \<Longrightarrow> inv (run ops s)"
  unfolding run_def by (induction ops arbitrary: s) (auto simp: inv_perform)

subsection \<open>What the operations do\<close>

lemma map_of_insort_key_new:
  "k \<notin> fst ` set xs \<Longrightarrow> map_of (insort_key fst (k, v) xs) k = Some v"
  by (induction xs) auto

lemma store_add_ok:
  assumes "store_add f v st = Inr (k, st')"
  shows "k = key_generator st" and "key_generator st' = k + 1"
    and "store_get k st = None" and "store_get k st' = Some (k, v)"
  using assms
  by (auto simp: store_add_def Let_def store_get_def map_of_insort_key_new map_of_eq_None_iff
      split: if_splits)

lemma store_add_succeeds:
  assumes "wf_store f st" and "key_generator st \<le> 2 ^ 53"
  shows "\<exists>st'. store_add f v st = Inr (key_generator st, st')"
  using assms by (auto simp: store_add_def Let_def wf_store_def)

lemma saveEntry_ok:
  assumes "saveEntry s now e = (Inr k, s1)"
  shows "\<exists>st s0 st'. entries_transaction s = (Inr st, s0) \<and>
      store_add entry_timestamp
        \<lparr>entryData.photo = entry.photo e, signature = entry.signature e,
         name = or_empty (entry.name e), designation = or_empty (entry.designation e),
         timestamp = toISOString now\<rparr> st = Inr (k, st') \<and>
      s1 = s0\<lparr>entries := Some st'\<rparr>"
proof (cases "entries_transaction s")
  case (Pair r s0)
  show ?thesis
  proof (cases r)
    case (Inl err)
    then show ?thesis using assms Pair by (simp add: saveEntry_def)
  next
    case (Inr st)
    then show ?thesis using assms Pair
      by (auto simp: saveEntry_def split: sum.splits)
  qed
qed

lemma initDB_entries: "entries s = Some st \<Longrightarrow> entries (snd (initDB s)) = Some st"
  by (auto simp: initDB_def open_complete_def open_request_def onupgradeneeded_def Let_def
      split: option.splits)

lemma entries_transaction_entries:
  assumes "entries s = Some st"
  shows "entries (snd (entries_transaction s)) = Some st"
    and "fst (entries_transaction s) = Inr st' \<Longrightarrow> st' = st"
  using initDB_entries [OF assms]
  by (auto simp: entries_transaction_def split: prod.splits sum.splits option.splits)

lemma visitors_transaction_entries:
  "entries (snd (visitors_transaction s)) = entries (snd (initDB s))"
  by (auto simp: visitors_transaction_def split: prod.splits sum.splits option.splits)

lemma store_delete_key_generator: "key_generator (store_delete i st) = key_generator st"
  by (simp add: store_delete_def)

lemma store_clear_key_generator: "key_generator (store_clear st) = key_generator st"
  by (simp add: store_clear_def)

lemma key_generator_perform:
  assumes "entries s = Some st"
  shows "\<exists>st'. entries (perform op s) = Some st' \<and> key_generator st \<le> key_generator st'"
proof -
  obtain r s0 where t: "entries_transaction s = (r, s0)" by (cases "entries_transaction s")
  have e0: "entries s0 = Some st" using entries_transaction_entries(1) [OF assms] t by simp
  have r: "r = Inr st' \<Longrightarrow> st' = st" for st'
    using entries_transaction_entries(2) [OF assms, of st'] t by simp
  show ?thesis
  proof (cases op)
    case InitDB
    then show ?thesis using initDB_entries [OF assms] by simp
  next
    case (SaveEntry now e)
    show ?thesis
    proof (cases r)
      case (Inl err)
      then show ?thesis using t e0 SaveEntry by (simp add: saveEntry_def)
    next
      case (Inr st')
      with r have st': "st' = st" by simp
      show ?thesis
      proof (cases "store_add entry_timestamp
          \<lparr>entryData.photo = entry.photo e, signature = entry.signature e,
           name = or_empty (entry.name e), designation = or_empty (entry.designation e),
           timestamp = toISOString now\<rparr> st")
        case (Inl err)
        then show ?thesis using t e0 SaveEntry Inr st' by (simp add: saveEntry_def)
      next
        case (Inr p)
        obtain k st2 where p: "p = (k, st2)" by (cases p)
        from store_add_ok(1,2) [of entry_timestamp _ st k st2] Inr p
        have "key_generator st \<le> key_generator st2" by simp
        then show ?thesis using t SaveEntry \<open>r = Inr st'\<close> st' Inr p
          by (simp add: saveEntry_def)
      qed
    qed
  next
    case (DeleteEntry i)
    then show ?thesis using t e0 r
      by (cases r) (auto simp: deleteEntry_def store_delete_key_generator)
  next
    case DeleteAllEntries
    then show ?thesis using t e0 r
      by (cases r) (auto simp: deleteAllEntries_def store_clear_key_generator)
  next
    case (AddVisitor now v)
    have "entries (snd (visitors_transaction s)) = Some st"
      using initDB_entries [OF assms] by (simp add: visitors_transaction_entries)
    then show ?thesis using AddVisitor
      by (auto simp: addVisitor_def Let_def split: prod.splits sum.splits)
  next
    case (DeleteVisitor i)
    have "entries (snd (visitors_transaction s)) = Some st"
      using initDB_entries [OF assms] by (simp add: visitors_transaction_entries)
    then show ?thesis using DeleteVisitor
      by (auto simp: deleteVisitor_def split: prod.splits sum.splits)
  qed
qed

lemma key_generator_run:
  assumes "entries s = Some st"
  shows "\<exists>st'. entries (run ops s) = Some st' \<and> key_generator st \<le> key_generator st'"
  using assms
proof (induction ops arbitrary: s st)
  case Nil
  then show ?case by (simp add: run_def)
next
  case (Cons op ops)
  from key_generator_perform [OF Cons.prems, of op] obtain st1 where
    1: "entries (perform op s) = Some st1" "key_generator st \<le> key_generator st1" by blast
  from Cons.IH [OF 1(1)] obtain st2 where
    "entries (run ops (perform op s)) = Some st2" "key_generator st1 \<le> key_generator st2"
    by blast
  with 1 show ?case by (auto simp: run_def)
qed

lemma saveEntry_later_id:
  assumes "saveEntry s now e = (Inr k, s1)"
    and "saveEntry (run ops s1) now' e' = (Inr k', s2)"
  shows "k < k'"
proof -
  from saveEntry_ok [OF assms(1)] obtain st s0 st' where
    a: "store_add entry_timestamp
        \<lparr>entryData.photo = entry.photo e, signature = entry.signature e,
         name = or_empty (entry.name e), designation = or_empty (entry.designation e),
         timestamp = toISOString now\<rparr> st = Inr (k, st')"
    and s1: "s1 = s0\<lparr>entries := Some st'\<rparr>" by blast
  from store_add_ok(2) [OF a] have g: "key_generator st' = k + 1" .
  from s1 have "entries s1 = Some st'" by simp
  from key_generator_run [OF this, of ops] obtain st2 where
    2: "entries (run ops s1) = Some st2" "key_generator st' \<le> key_generator st2" by blast
  from saveEntry_ok [OF assms(2)] obtain st3 s3 st4 where
    t: "entries_transaction (run ops s1) = (Inr st3, s3)"
    and b: "store_add entry_timestamp
        \<lparr>entryData.photo = entry.photo e', signature = entry.signature e',
         name = or_empty (entry.name e'), designation = or_empty (entry.designation e'),
         timestamp = toISOString now'\<rparr> st3 = Inr (k', st4)" by blast
  from entries_transaction_entries(2) [OF 2(1), of st3] t have "st3 = st2" by simp
  with store_add_ok(1) [OF b] have "k' = key_generator st2" by simp
  with g 2(2) show ?thesis by simp
qed

lemma saveEntry_timestamp_ignored:
  "saveEntry s now (e\<lparr>entry.timestamp := t\<rparr>) = saveEntry s now e"
  by (cases "entries_transaction s") (auto simp: saveEntry_def split: sum.splits)

lemma getEntry_before_save:
  assumes "saveEntry s now e = (Inr k, s1)"
  shows "fst (getEntry s k) = Inr None"
proof -
  from saveEntry_ok [OF assms] obtain st s0 st' where
    t: "entries_transaction s = (Inr st, s0)"
    and a: "store_add entry_timestamp
        \<lparr>entryData.photo = entry.photo e, signature = entry.signature e,
         name = or_empty (entry.name e), designation = or_empty (entry.designation e),
         timestamp = toISOString now\<rparr> st = Inr (k, st')" by blast
  from store_add_ok(3) [OF a] t show ?thesis by (simp add: getEntry_def)
qed

lemma saveEntry_stored:
  assumes "saveEntry s now e = (Inr k, s1)"
  shows "\<exists>st. entries s1 = Some st \<and>
     store_get k st = Some (k,
        \<lparr>entryData.photo = entry.photo e, signature = entry.signature e,
         name = or_empty (entry.name e), designation = or_empty (entry.designation e),
         timestamp = toISOString now\<rparr>)"
proof -
  from saveEntry_ok [OF assms] obtain st s0 st' where
    a: "store_add entry_timestamp
        \<lparr>entryData.photo = entry.photo e, signature = entry.signature e,
         name = or_empty (entry.name e), designation = or_empty (entry.designation e),
         timestamp = toISOString now\<rparr> st = Inr (k, st')"
    and s1: "s1 = s0\<lparr>entries := Some st'\<rparr>" by blast
  from store_add_ok(4) [OF a] s1 show ?thesis by simp
qed

lemma saveEntry_succeeds:
  assumes "inv s" and "\<forall>st. entries s = Some st \<longrightarrow> key_generator st \<le> 2 ^ 53"
  shows "\<exists>k s1. saveEntry s now e = (Inr k, s1)"
proof -
  from entries_transaction_inv [OF assms(1)] obtain st s0 where
    t: "entries_transaction s = (Inr st, s0)" "inv s0" "entries s0 = Some st" by blast
  have wf: "wf_store entry_timestamp st" using t by (simp add: inv_wf_entries)
  have g: "key_generator st \<le> 2 ^ 53"
  proof (cases "entries s")
    case None
    from entries_transaction_ok(3) [OF t(1)] obtain h where h: "initDB s = (Inr h, s0)" ..
    with None t(3) have "st = createObjectStore"
      by (auto simp: initDB_def open_complete_def open_request_def onupgradeneeded_def Let_def
          split: option.splits if_splits)
    then show ?thesis by (simp add: createObjectStore_def)
  next
    case (Some st0)
    with entries_transaction_entries(2) [OF Some, of st] t have "st = st0" by simp
    with assms(2) Some show ?thesis by simp
  qed
  from store_add_succeeds [OF wf g] obtain st' where
    "store_add entry_timestamp
        \<lparr>entryData.photo = entry.photo e, signature = entry.signature e,
         name = or_empty (entry.name e), designation = or_empty (entry.designation e),
         timestamp = toISOString now\<rparr> st = Inr (key_generator st, st')" by blast
  with t(1) show ?thesis by (simp add: saveEntry_def)
qed

lemma toISOString_nonempty: "toISOString d \<noteq> []"
  by (simp add: toISOString_def)

lemma or_empty_cases: "or_empty x = (case x of None \<Rightarrow> [] | Some n \<Rightarrow> n)"
  by (simp add: or_empty_def split: option.splits)

lemma store_add_any_value:
  assumes "store_add f v st = Inr (k, st')"
  shows "\<exists>st''. store_add g w st = Inr (k, st'')"
  using assms by (auto simp: store_add_def Let_def split: if_splits)

lemma saveEntry_any_entry:
  assumes "saveEntry s now e = (Inr k, s1)"
  shows "\<exists>s2. saveEntry s now' e' = (Inr k, s2)"
proof -
  from saveEntry_ok [OF assms] obtain st s0 st' where
    t: "entries_transaction s = (Inr st, s0)"
    and a: "store_add entry_timestamp
        \<lparr>entryData.photo = entry.photo e, signature = entry.signature e,
         name = or_empty (entry.name e), designation = or_empty (entry.designation e),
         timestamp = toISOString now\<rparr> st = Inr (k, st')" by blast
  from store_add_any_value [OF a] obtain st'' where
    "store_add entry_timestamp
        \<lparr>entryData.photo = entry.photo e', signature = entry.signature e',
         name = or_empty (entry.name e'), designation = or_empty (entry.designation e'),
         timestamp = toISOString now'\<rparr> st = Inr (k, st'')" by blast
  with t show ?thesis by (simp add: saveEntry_def)
qed

lemma store_get_cases:
  "(case store_get i st of
      None \<Rightarrow> i \<notin> fst ` set (records st)
    | Some (k, d) \<Rightarrow> k = i \<and> (i, d) \<in> set (records st))"
  by (auto simp: store_get_def map_of_eq_None_iff dest: map_of_SomeD split: option.splits)

lemma store_get_delete: "store_get i (store_delete i st) = None"
  by (auto simp: store_get_def store_delete_def map_of_eq_None_iff)

lemma deleteEntry_ok:
  assumes "deleteEntry s i = (Inr (), s1)"
  shows "\<exists>st s0. entries_transaction s = (Inr st, s0) \<and> s1 = s0\<lparr>entries := Some (store_delete i st)\<rparr>"
  using assms
  by (cases "entries_transaction s") (auto simp: deleteEntry_def split: sum.splits)

lemma deleteEntry_then:
  assumes "deleteEntry s i = (Inr (), s1)"
  shows "getEntry s1 i = (Inr None, s1)" and "fst (deleteEntry s1 i) = Inr ()"
proof -
  from deleteEntry_ok [OF assms] obtain st s0 where
    t: "entries_transaction s = (Inr st, s0)" and s1: "s1 = s0\<lparr>entries := Some (store_delete i st)\<rparr>"
    by blast
  from entries_transaction_ok(2) [OF t] s1 have "db s1 \<noteq> None" by simp
  from entries_transaction_set [OF this] s1
  have t1: "entries_transaction s1 = (Inr (store_delete i st), s1)" by simp
  show "getEntry s1 i = (Inr None, s1)" using t1 by (simp add: getEntry_def store_get_delete)
  show "fst (deleteEntry s1 i) = Inr ()" using t1 by (simp add: deleteEntry_def)
qed

lemma deleteAllEntries_ok:
  assumes "deleteAllEntries s = (Inr (), s1)"
  shows "\<exists>st s0 h. initDB s = (Inr h, s0) \<and> entries s0 = Some st \<and>
           s1 = s0\<lparr>entries := Some (store_clear st)\<rparr> \<and> db s0 = Some h"
proof -
  from assms obtain st s0 where
    t: "entries_transaction s = (Inr st, s0)" and s1: "s1 = s0\<lparr>entries := Some (store_clear st)\<rparr>"
    by (cases "entries_transaction s") (auto simp: deleteAllEntries_def split: sum.splits)
  from entries_transaction_ok [OF t] obtain h where h: "initDB s = (Inr h, s0)" "entries s0 = Some st"
    by blast
  with initDB_ok(1) [OF h(1)] s1 show ?thesis by blast
qed

lemma cursor_loop_empty: "records st = [] \<Longrightarrow> cursor_loop st c [] = []"
  by (induction c) (auto simp: store_get_def)

lemma deleteAllEntries_then:
  assumes "deleteAllEntries s = (Inr (), s1)"
  shows "fst (getEntryCount s1) = Inr 0" and "fst (getAllEntries s1) = Inr []"
    and "visitors s1 = visitors (snd (initDB s))"
    and "visitors s = Some vs \<Longrightarrow> visitors s1 = Some vs"
    and "fst (getAllVisitors s1) = fst (getAllVisitors s)"
proof -
  from deleteAllEntries_ok [OF assms] obtain st s0 h where
    i: "initDB s = (Inr h, s0)" and s1: "s1 = s0\<lparr>entries := Some (store_clear st)\<rparr>"
    and h: "db s0 = Some h" by blast
  from h s1 have d: "db s1 \<noteq> None" by simp
  from entries_transaction_set [OF d] s1
  have t1: "entries_transaction s1 = (Inr (store_clear st), s1)" by simp
  show "fst (getEntryCount s1) = Inr 0"
    using t1 by (simp add: getEntryCount_def store_count_def store_clear_def)
  show "fst (getAllEntries s1) = Inr []"
    using t1 by (simp add: getAllEntries_def cursor_loop_empty store_clear_def)
  show v: "visitors s1 = visitors (snd (initDB s))" using i s1 by simp
  show "visitors s = Some vs \<Longrightarrow> visitors s1 = Some vs"
    using initDB_ok(3) [OF i] s1 by simp
  have "visitors_transaction s1 =
      (case visitors s0 of None \<Rightarrow> (Inl NotFoundError, s1) | Some vst \<Rightarrow> (Inr vst, s1))"
    using visitors_transaction_set [OF d] s1 by simp
  moreover have "visitors_transaction s =
      (case visitors s0 of None \<Rightarrow> (Inl NotFoundError, s0) | Some vst \<Rightarrow> (Inr vst, s0))"
    using i by (simp add: visitors_transaction_def)
  ultimately show "fst (getAllVisitors s1) = fst (getAllVisitors s)"
    by (simp add: getAllVisitors_def split: option.splits)
qed

lemma run_events_set:
  assumes "db s = Some h"
  shows "run_events evs (s, 0, rs) = (s, 0, rs @ replicate (length (filter (\<lambda>e. e = Call) evs)) (Inr h))"
  using assms unfolding run_events_def
proof (induction evs arbitrary: rs)
  case Nil
  then show ?case by simp
next
  case (Cons ev evs)
  show ?case
  proof (cases ev)
    case Call
    then show ?thesis using Cons.IH [OF Cons.prems, of "rs @ [Inr h]"] Cons.prems
      by (simp add: replicate_app_Cons_same)
  next
    case Settle
    then show ?thesis using Cons.IH [OF Cons.prems, of rs] by simp
  qed
qed

lemma initDB_as_events:
  "run_events [Call, Settle] (s, 0, rs) = (snd (initDB s), 0, rs @ [fst (initDB s)])"
  by (cases "db s")
    (auto simp: run_events_def initDB_def split: prod.splits)

lemma initDB_again:
  assumes "initDB s = (Inr h, s1)"
  shows "initDB s1 = (Inr h, s1)"
  using initDB_ok(1) [OF assms] by (simp add: initDB_def)

lemma open_complete_budget:
  "upgrade_budget (snd (open_complete s)) = upgrade_budget s"
  "upgrades s \<le> upgrades (snd (open_complete s))"
  "version s \<le> version (snd (open_complete s))"
  by (auto simp: open_complete_def upgrade_budget_def onupgradeneeded_def Let_def)

lemma step_budget:
  "upgrade_budget (fst (step ev st)) = upgrade_budget (fst st)"
proof -
  obtain s p rs where st: "st = (s, p, rs)" by (cases st)
  show ?thesis
  proof (cases ev)
    case Call
    then show ?thesis
      by (auto simp: st upgrade_budget_def open_request_def split: option.splits)
  next
    case Settle
    then show ?thesis using open_complete_budget(1) [of s]
      by (auto simp: st split: nat.splits prod.splits)
  qed
qed

lemma run_events_budget:
  "upgrade_budget (fst (run_events evs st)) = upgrade_budget (fst st)"
  unfolding run_events_def
  by (induction evs arbitrary: st) (auto simp: step_budget)

lemma run_events_upgrades:
  "upgrades (fst (run_events evs st)) \<le> upgrades (fst st) + 1"
  using run_events_budget [of evs st] by (auto simp: upgrade_budget_def split: if_splits)

lemma step_version: "version (fst st) \<le> version (fst (step ev st))"
proof -
  obtain s p rs where st: "st = (s, p, rs)" by (cases st)
  show ?thesis
  proof (cases ev)
    case Call
    then show ?thesis by (auto simp: st open_request_def split: option.splits)
  next
    case Settle
    then show ?thesis using open_complete_budget(3) [of s]
      by (auto simp: st split: nat.splits prod.splits)
  qed
qed

lemma run_events_version: "version (fst st) \<le> version (fst (run_events evs st))"
  unfolding run_events_def
proof (induction evs arbitrary: st)
  case Nil
  then show ?case by simp
next
  case (Cons ev evs)
  from step_version [of st ev] Cons [of "step ev st"] show ?case by simp
qed

lemma run_events_no_upgrade:
  assumes "version (fst st) = DB_VERSION"
  shows "upgrades (fst (run_events evs st)) = upgrades (fst st)"
  using run_events_budget [of evs st] run_events_version [of st evs] assms
  by (auto simp: upgrade_budget_def split: if_splits)

lemma run_events_one_upgrade:
  assumes "version (fst st) < DB_VERSION" and "version (fst (run_events evs st)) = DB_VERSION"
  shows "upgrades (fst (run_events evs st)) = upgrades (fst st) + 1"
  using run_events_budget [of evs st] assms
  by (auto simp: upgrade_budget_def split: if_splits)

lemma run_events_append: "run_events (evs @ evs') st = run_events evs' (run_events evs st)"
  by (simp add: run_events_def)

lemma calls_of_awaited:
  "length (filter (\<lambda>e. e = Call) (concat (replicate n [Call, Settle]))) = n"
  by (induction n) simp_all

lemma run_events_awaited:
  assumes "initDB s = (Inr h, s1)"
  shows "run_events (concat (replicate (Suc n) [Call, Settle])) (s, 0, rs) =
           (s1, 0, rs @ replicate (Suc n) (Inr h))"
proof -
  have first: "run_events [Call, Settle] (s, 0, rs) = (s1, 0, rs @ [Inr h])"
    using initDB_as_events [of s rs] assms by simp
  have set: "db s1 = Some h" by (rule initDB_ok(1) [OF assms])
  have "run_events (concat (replicate (Suc n) [Call, Settle])) (s, 0, rs) =
          run_events (concat (replicate n [Call, Settle])) (s1, 0, rs @ [Inr h])"
    using run_events_append [of "[Call, Settle]" "concat (replicate n [Call, Settle])" "(s, 0, rs)"]
      first by simp
  also have "\<dots> = (s1, 0, (rs @ [Inr h]) @ replicate n (Inr h))"
    using run_events_set [OF set, of "concat (replicate n [Call, Settle])" "rs @ [Inr h]"]
    by (simp only: calls_of_awaited)
  finally show ?thesis by (simp add: replicate_app_Cons_same)
qed

lemma initDB_opens: "opens (snd (initDB s)) \<le> opens s + 1"
  by (auto simp: initDB_def open_complete_def open_request_def onupgradeneeded_def Let_def
      split: option.splits)

lemma open_complete_keeps:
  "opens (snd (open_complete s)) = opens s"
  "db s \<noteq> None \<Longrightarrow> db (snd (open_complete s)) \<noteq> None"
  by (auto simp: open_complete_def onupgradeneeded_def Let_def)

lemma step_handle:
  assumes "db (fst st) \<noteq> None"
  shows "db (fst (step ev st)) \<noteq> None \<and> opens (fst (step ev st)) = opens (fst st)"
proof -
  obtain s p rs where st: "st = (s, p, rs)" by (cases st)
  show ?thesis
  proof (cases ev)
    case Call
    then show ?thesis using assms by (auto simp: st)
  next
    case Settle
    then show ?thesis using assms open_complete_keeps [of s]
      by (auto simp: st split: nat.splits prod.splits)
  qed
qed

lemma run_events_handle:
  assumes "db (fst st) \<noteq> None"
  shows "db (fst (run_events evs st)) \<noteq> None \<and> opens (fst (run_events evs st)) = opens (fst st)"
  using assms unfolding run_events_def
proof (induction evs arbitrary: st)
  case Nil
  then show ?case by simp
next
  case (Cons ev evs)
  from step_handle [OF Cons.prems, of ev] Cons.IH [of "step ev st"]
  show ?case by simp
qed

lemma run_events_upgrades_eq:
  "upgrades (fst (run_events evs st)) =
     upgrades (fst st) +
     (if version (fst st) < DB_VERSION \<and> DB_VERSION \<le> version (fst (run_events evs st))
      then 1 else 0)"
  using run_events_budget [of evs st] run_events_version [of st evs]
  by (auto simp: upgrade_budget_def split: if_splits)

lemma initDB_upgrade:
  assumes "db s = None" and "version s < DB_VERSION"
  shows "upgrades (snd (initDB s)) = upgrades s + 1 \<and> version (snd (initDB s)) = DB_VERSION"
  using assms
  by (simp add: initDB_def open_complete_def open_request_def onupgradeneeded_def Let_def)

section \<open>Properties of the conversions\<close>

subsection \<open>Base64\<close>


























subsection \<open>Data URLs\<close>












section \<open>The claims about the gateway\<close>

text \<open>
  Supporting fact: the earlier worker of \<open>src/sw.js\<close> is cache-first. A cached
  response is returned without the network being asked, which is the behaviour the
  network-first worker replaced; and on a cache miss a rejected fetch is passed on as a
  rejection, with no fallback.
\<close>

lemma fetch_listener_v4_cache_first:
  assumes "method req = ''GET''" and "startsWith (url req) origin"
    and "caches_match (url req) cs = Some cached"
  shows "fetch_listener_v4 origin net req cs = (Responded (Some cached), cs, [CacheMatch (url req)])"
  using assms by (simp add: fetch_listener_v4_def)

lemma fetch_listener_v4_no_fallback:
  assumes "method req = ''GET''" and "startsWith (url req) origin"
    and "caches_match (url req) cs = None" and "net (url req) = Rejected"
  shows "fst (fetch_listener_v4 origin net req cs) = RespondRejected"
  using assms by (simp add: fetch_listener_v4_def)

text \<open>
  Supporting fact: the fallback chain of the network-first worker when the fetch is
  rejected. A cached response for the request is returned; without one, a request that
  is not a navigation gets the gateway-timeout response, and a navigation gets the
  result of looking the shell document up in the cache.
\<close>

lemma fetch_listener_fallback_chain:
  assumes "method req = ''GET''" and "startsWith (url req) origin"
    and "net (url req) = Rejected"
  shows "fst (fetch_listener origin net req cs) =
    (case caches_match (url req) cs of
       Some cached \<Rightarrow> Responded (Some cached)
     | None \<Rightarrow>
         (if mode req = ''navigate''
          then Responded (caches_match (origin @ ''/index.html'') cs)
          else Responded (Some gateway_timeout)))"
  using assms by (simp add: fetch_listener_def isNavigationRequest_def split: option.splits)

text \<open>
  Supporting fact: after a successful install, the activation and any fetch events, the
  shell document is still in the current cache, so a failed fetch then always gets a
  response: the cached one, the shell document for a navigation, the gateway timeout
  otherwise. The worker itself never removes the current generation.
\<close>

lemma fetch_listener_offline_fallback:
  assumes "fst (install origin net0 cs0) = Fulfilled ()"
    and "method req = ''GET''" and "startsWith (url req) origin"
    and "net (url req) = Rejected"
  shows "(\<exists>r. fst (fetch_listener origin net req
                 (serve origin events (activate (snd (install origin net0 cs0)))))
              = Responded (Some r)) \<and>
    (case caches_match (url req) (serve origin events (activate (snd (install origin net0 cs0)))) of
       Some cached \<Rightarrow>
         fst (fetch_listener origin net req
               (serve origin events (activate (snd (install origin net0 cs0)))))
           = Responded (Some cached)
     | None \<Rightarrow>
         (if isNavigationRequest req
          then (\<exists>shell.
                  caches_match (origin @ ''/index.html'')
                    (serve origin events (activate (snd (install origin net0 cs0)))) = Some shell \<and>
                  fst (fetch_listener origin net req
                        (serve origin events (activate (snd (install origin net0 cs0)))))
                    = Responded (Some shell))
          else fst (fetch_listener origin net req
                     (serve origin events (activate (snd (install origin net0 cs0)))))
                 = Responded (Some gateway_timeout)))"
proof -
  let ?cs = "serve origin events (activate (snd (install origin net0 cs0)))"
  have "cached_in CACHE_NAME (origin @ ''/index.html'') ?cs"
    using install_caches_shell [OF assms(1)]
    by (simp add: cached_in_serve cached_in_activate)
  then have "caches_match (origin @ ''/index.html'') ?cs \<noteq> None" by (rule cached_in_match)
  then obtain shell where shell: "caches_match (origin @ ''/index.html'') ?cs = Some shell"
    by auto
  note chain = fetch_listener_fallback_chain [where req = req and origin = origin and net = net
      and cs = ?cs, OF assms(2,3,4)]
  show ?thesis
  proof (cases "caches_match (url req) ?cs")
    case None
    then show ?thesis using chain shell by (simp add: isNavigationRequest_def)
  next
    case (Some cached)
    then show ?thesis using chain by simp
  qed
qed

text \<open>
  Claim C1, as amended. For every intercepted same-origin GET request the first
  platform call of the network-first worker (cache generation \<open>visitorbook-v6\<close>) is
  the network fetch, and the cache is asked only when that fetch has been rejected. When
  the network answers with status 200, that response is what the caller gets; the
  current cache generation then holds it under the request's URL without the fragment,
  in place of what it held there and with everything else it held, unless the response
  has \<open>Vary: *\<close>, which the platform refuses to store: then the cache generation is
  opened and left as it was. The worker of \<open>src/sw.js\<close> (cache generation
  \<open>visitorbook-v4\<close>) asks the cache first: a cached response is returned without the
  network being asked, and only on a miss is the network asked, a response with status
  200 returned and stored in the same way.
\<close>

theorem fetch_listener_network_first:
  assumes "method req = ''GET''" and "startsWith (url req) origin"
  shows "(\<exists>rest. snd (snd (fetch_listener origin net req cs)) = NetFetch (url req) # rest) \<and>
    ((\<exists>u. CacheMatch u \<in> set (snd (snd (fetch_listener origin net req cs)))) \<longrightarrow>
       net (url req) = Rejected) \<and>
    (\<forall>r. net (url req) = Fulfilled (Some r) \<and> status r = 200 \<longrightarrow>
       fst (fetch_listener origin net req cs) = Responded (Some r) \<and>
       (if ''*'' \<in> set (vary r)
        then fst (snd (fetch_listener origin net req cs)) = caches_open CACHE_NAME cs
        else DAList.lookup (fst (snd (fetch_listener origin net req cs))) CACHE_NAME =
               Some ((case DAList.lookup cs CACHE_NAME of Some c0 \<Rightarrow> c0 | None \<Rightarrow> Map.empty)
                      (cache_key (url req) \<mapsto> r)))) \<and>
    (\<forall>cached. caches_match (url req) cs = Some cached \<longrightarrow>
       fetch_listener_v4 origin net req cs =
         (Responded (Some cached), cs, [CacheMatch (url req)])) \<and>
    (caches_match (url req) cs = None \<longrightarrow>
       (\<exists>rest. snd (snd (fetch_listener_v4 origin net req cs)) =
                 CacheMatch (url req) # NetFetch (url req) # rest) \<and>
       (\<forall>r. net (url req) = Fulfilled (Some r) \<and> status r = 200 \<longrightarrow>
          fst (fetch_listener_v4 origin net req cs) = Responded (Some r) \<and>
          (if ''*'' \<in> set (vary r)
           then fst (snd (fetch_listener_v4 origin net req cs)) = caches_open CACHE_NAME_v4 cs
           else DAList.lookup (fst (snd (fetch_listener_v4 origin net req cs))) CACHE_NAME_v4 =
                  Some ((case DAList.lookup cs CACHE_NAME_v4 of
                           Some c0 \<Rightarrow> c0 | None \<Rightarrow> Map.empty)
                         (cache_key (url req) \<mapsto> r)))))"
proof (intro conjI)
  show "\<exists>rest. snd (snd (fetch_listener origin net req cs)) = NetFetch (url req) # rest"
    using assms by (auto simp: fetch_listener_def split: promise.splits option.splits)
  show "(\<exists>u. CacheMatch u \<in> set (snd (snd (fetch_listener origin net req cs)))) \<longrightarrow>
          net (url req) = Rejected"
    using assms by (auto simp: fetch_listener_def split: promise.splits option.splits if_splits)
  show "\<forall>r. net (url req) = Fulfilled (Some r) \<and> status r = 200 \<longrightarrow>
       fst (fetch_listener origin net req cs) = Responded (Some r) \<and>
       (if ''*'' \<in> set (vary r)
        then fst (snd (fetch_listener origin net req cs)) = caches_open CACHE_NAME cs
        else DAList.lookup (fst (snd (fetch_listener origin net req cs))) CACHE_NAME =
               Some ((case DAList.lookup cs CACHE_NAME of Some c0 \<Rightarrow> c0 | None \<Rightarrow> Map.empty)
                      (cache_key (url req) \<mapsto> r)))"
    using assms
    by (simp add: fetch_listener_def cache_put_def refused_200 lookup_cache_store_open_eq)
  show "\<forall>cached. caches_match (url req) cs = Some cached \<longrightarrow>
       fetch_listener_v4 origin net req cs =
         (Responded (Some cached), cs, [CacheMatch (url req)])"
    using assms by (simp add: fetch_listener_v4_def)
  show "caches_match (url req) cs = None \<longrightarrow>
       (\<exists>rest. snd (snd (fetch_listener_v4 origin net req cs)) =
                 CacheMatch (url req) # NetFetch (url req) # rest) \<and>
       (\<forall>r. net (url req) = Fulfilled (Some r) \<and> status r = 200 \<longrightarrow>
          fst (fetch_listener_v4 origin net req cs) = Responded (Some r) \<and>
          (if ''*'' \<in> set (vary r)
           then fst (snd (fetch_listener_v4 origin net req cs)) = caches_open CACHE_NAME_v4 cs
           else DAList.lookup (fst (snd (fetch_listener_v4 origin net req cs))) CACHE_NAME_v4 =
                  Some ((case DAList.lookup cs CACHE_NAME_v4 of
                           Some c0 \<Rightarrow> c0 | None \<Rightarrow> Map.empty)
                         (cache_key (url req) \<mapsto> r))))"
    using assms
    by (auto simp: fetch_listener_v4_def cache_put_def refused_200 lookup_cache_store_open_eq
        split: promise.splits option.splits)
qed

theorem fetch_listener_network_first_witness:
  "method \<lparr>method = ''GET'', url = ''https://kiosk.example/js/app.js'', mode = ''no-cors''\<rparr> = ''GET'' \<and>
   startsWith (url \<lparr>method = ''GET'', url = ''https://kiosk.example/js/app.js'', mode = ''no-cors''\<rparr>)
     ''https://kiosk.example'' \<and>
   fst (fetch_listener ''https://kiosk.example''
          (\<lambda>u. Fulfilled (Some \<lparr>status = 200, statusText = ''OK'', body = ''new'', vary = []\<rparr>))
          \<lparr>method = ''GET'', url = ''https://kiosk.example/js/app.js'', mode = ''no-cors''\<rparr>
          (DAList.update CACHE_NAME
             [''https://kiosk.example/js/app.js'' \<mapsto>
                \<lparr>status = 200, statusText = ''OK'', body = ''old'', vary = []\<rparr>]
             DAList.empty))
     = Responded (Some \<lparr>status = 200, statusText = ''OK'', body = ''new'', vary = []\<rparr>) \<and>
   (\<exists>c. DAList.lookup (fst (snd (fetch_listener ''https://kiosk.example''
          (\<lambda>u. Fulfilled (Some \<lparr>status = 200, statusText = ''OK'', body = ''new'', vary = []\<rparr>))
          \<lparr>method = ''GET'', url = ''https://kiosk.example/js/app.js'', mode = ''no-cors''\<rparr>
          (DAList.update CACHE_NAME
             [''https://kiosk.example/js/app.js'' \<mapsto>
                \<lparr>status = 200, statusText = ''OK'', body = ''old'', vary = []\<rparr>]
             DAList.empty)))) CACHE_NAME = Some c \<and>
        c ''https://kiosk.example/js/app.js''
          = Some \<lparr>status = 200, statusText = ''OK'', body = ''new'', vary = []\<rparr>) \<and>
   fetch_listener_v4 ''https://kiosk.example''
          (\<lambda>u. Fulfilled (Some \<lparr>status = 200, statusText = ''OK'', body = ''new'', vary = []\<rparr>))
          \<lparr>method = ''GET'', url = ''https://kiosk.example/js/app.js'', mode = ''no-cors''\<rparr>
          (DAList.update CACHE_NAME
             [''https://kiosk.example/js/app.js'' \<mapsto>
                \<lparr>status = 200, statusText = ''OK'', body = ''old'', vary = []\<rparr>]
             DAList.empty)
     = (Responded (Some \<lparr>status = 200, statusText = ''OK'', body = ''old'', vary = []\<rparr>),
        DAList.update CACHE_NAME
             [''https://kiosk.example/js/app.js'' \<mapsto>
                \<lparr>status = 200, statusText = ''OK'', body = ''old'', vary = []\<rparr>]
             DAList.empty,
        [CacheMatch ''https://kiosk.example/js/app.js''])"
proof -
  let ?u = "''https://kiosk.example/js/app.js''"
  let ?req = "\<lparr>method = ''GET'', url = ?u, mode = ''no-cors''\<rparr>"
  let ?new = "\<lparr>status = 200, statusText = ''OK'', body = ''new'', vary = []\<rparr>"
  let ?old = "\<lparr>status = 200, statusText = ''OK'', body = ''old'', vary = []\<rparr>"
  let ?cs = "DAList.update CACHE_NAME [?u \<mapsto> ?old] DAList.empty"
  let ?net = "\<lambda>u :: string. Fulfilled (Some ?new)"
  have h1: "method ?req = ''GET''" by simp
  have h2: "startsWith (url ?req) ''https://kiosk.example''" by (simp add: startsWith_def)
  have key: "cache_key (url ?req) = ?u" by (simp add: cache_key_def)
  have hit: "caches_match (url ?req) ?cs = Some ?old"
    by (simp add: caches_match_def cache_key_def DAList.update.rep_eq DAList.empty.rep_eq)
  have answer: "?net (url ?req) = Fulfilled (Some ?new) \<and> status ?new = 200" by simp
  have plain: "''*'' \<notin> set (vary ?new)" by simp
  note all = fetch_listener_network_first [OF h1 h2, of ?net ?cs]
  from all have v6: "\<forall>r. ?net (url ?req) = Fulfilled (Some r) \<and> status r = 200 \<longrightarrow>
       fst (fetch_listener ''https://kiosk.example'' ?net ?req ?cs) = Responded (Some r) \<and>
       (if ''*'' \<in> set (vary r)
        then fst (snd (fetch_listener ''https://kiosk.example'' ?net ?req ?cs)) =
               caches_open CACHE_NAME ?cs
        else DAList.lookup (fst (snd (fetch_listener ''https://kiosk.example'' ?net ?req ?cs)))
               CACHE_NAME =
               Some ((case DAList.lookup ?cs CACHE_NAME of Some c0 \<Rightarrow> c0 | None \<Rightarrow> Map.empty)
                      (cache_key (url ?req) \<mapsto> r)))"
    by blast
  from all have v4: "\<forall>cached. caches_match (url ?req) ?cs = Some cached \<longrightarrow>
       fetch_listener_v4 ''https://kiosk.example'' ?net ?req ?cs =
         (Responded (Some cached), ?cs, [CacheMatch (url ?req)])"
    by blast
  from v6 answer plain
  have r1: "fst (fetch_listener ''https://kiosk.example'' ?net ?req ?cs) = Responded (Some ?new)"
    and r2: "DAList.lookup (fst (snd (fetch_listener ''https://kiosk.example'' ?net ?req ?cs)))
               CACHE_NAME =
               Some ((case DAList.lookup ?cs CACHE_NAME of Some c0 \<Rightarrow> c0 | None \<Rightarrow> Map.empty)
                      (cache_key (url ?req) \<mapsto> ?new))"
    by (metis (no_types, lifting))+
  from r2 key
  have r3: "\<exists>c. DAList.lookup (fst (snd (fetch_listener ''https://kiosk.example'' ?net ?req ?cs)))
               CACHE_NAME = Some c \<and> c ?u = Some ?new"
    by simp
  from v4 hit
  have r4: "fetch_listener_v4 ''https://kiosk.example'' ?net ?req ?cs =
         (Responded (Some ?old), ?cs, [CacheMatch ?u])"
    by simp
  from h1 h2 r1 r3 r4 show ?thesis by (intro conjI)
qed

text \<open>
  Claim C1 as the specification words it does not hold of the worker of
  \<open>src/sw.js\<close>, the file at the path the page registers: with a response for the
  request in the cache, that worker returns the cached response and its only platform
  call is the cache lookup, although the network would have answered with a new response
  of status 200. Nor is every response of status 200 stored by the network-first worker:
  one with \<open>Vary: *\<close> is returned to the caller while the cache keeps the earlier
  response.
\<close>

theorem fetch_listener_network_first_counterexample:
  "fst (fetch_listener_v4 ''https://kiosk.example''
          (\<lambda>u. Fulfilled (Some \<lparr>status = 200, statusText = ''OK'', body = ''new'', vary = []\<rparr>))
          \<lparr>method = ''GET'', url = ''https://kiosk.example/js/app.js'', mode = ''no-cors''\<rparr>
          (DAList.update CACHE_NAME_v4
             [''https://kiosk.example/js/app.js'' \<mapsto>
                \<lparr>status = 200, statusText = ''OK'', body = ''old'', vary = []\<rparr>]
             DAList.empty))
     = Responded (Some \<lparr>status = 200, statusText = ''OK'', body = ''old'', vary = []\<rparr>) \<and>
   snd (snd (fetch_listener_v4 ''https://kiosk.example''
          (\<lambda>u. Fulfilled (Some \<lparr>status = 200, statusText = ''OK'', body = ''new'', vary = []\<rparr>))
          \<lparr>method = ''GET'', url = ''https://kiosk.example/js/app.js'', mode = ''no-cors''\<rparr>
          (DAList.update CACHE_NAME_v4
             [''https://kiosk.example/js/app.js'' \<mapsto>
                \<lparr>status = 200, statusText = ''OK'', body = ''old'', vary = []\<rparr>]
             DAList.empty)))
     = [CacheMatch ''https://kiosk.example/js/app.js''] \<and>
   fst (fetch_listener ''https://kiosk.example''
          (\<lambda>u. Fulfilled (Some \<lparr>status = 200, statusText = ''OK'', body = ''new'', vary = [''*'']\<rparr>))
          \<lparr>method = ''GET'', url = ''https://kiosk.example/js/app.js'', mode = ''no-cors''\<rparr>
          (DAList.update CACHE_NAME
             [''https://kiosk.example/js/app.js'' \<mapsto>
                \<lparr>status = 200, statusText = ''OK'', body = ''old'', vary = []\<rparr>]
             DAList.empty))
     = Responded (Some \<lparr>status = 200, statusText = ''OK'', body = ''new'', vary = [''*'']\<rparr>) \<and>
   (\<exists>c. DAList.lookup (fst (snd (fetch_listener ''https://kiosk.example''
          (\<lambda>u. Fulfilled (Some \<lparr>status = 200, statusText = ''OK'', body = ''new'', vary = [''*'']\<rparr>))
          \<lparr>method = ''GET'', url = ''https://kiosk.example/js/app.js'', mode = ''no-cors''\<rparr>
          (DAList.update CACHE_NAME
             [''https://kiosk.example/js/app.js'' \<mapsto>
                \<lparr>status = 200, statusText = ''OK'', body = ''old'', vary = []\<rparr>]
             DAList.empty)))) CACHE_NAME = Some c \<and>
        c ''https://kiosk.example/js/app.js''
          = Some \<lparr>status = 200, statusText = ''OK'', body = ''old'', vary = []\<rparr>)"
  by (simp add: fetch_listener_def fetch_listener_v4_def startsWith_def caches_match_def
      cache_key_def cache_put_def refused_def caches_open_def
      DAList.update.rep_eq DAList.empty.rep_eq DAList.lookup.rep_eq)

text \<open>
  Claim C3, at the input where the code departs from it. The network fails, nothing is
  cached for the request and the shell document is not in the cache (the cache has been
  emptied by something other than the worker), and the request is a navigation: the
  listener answers with the result of the cache lookup of the shell document as it is,
  which is \<open>undefined\<close> and no response. The first cache lookup of the same
  handler is tested before it is returned; this one is not.
\<close>

theorem fetch_listener_navigation_without_shell:
  "fst (fetch_listener ''https://kiosk.example'' (\<lambda>u. Rejected)
          \<lparr>method = ''GET'', url = ''https://kiosk.example/'', mode = ''navigate''\<rparr>
          (DAList.update CACHE_NAME Map.empty DAList.empty))
     = Responded None"
  by (simp add: fetch_listener_def startsWith_def caches_match_def cache_key_def
      isNavigationRequest_def DAList.update.rep_eq DAList.empty.rep_eq)

text \<open>
  Claim C4. After the activate listener has run, every cache name left is the current
  generation's, at most one cache is left, the current generation's content is what it
  was, and after an install the cache names are exactly the current generation's.
\<close>

theorem activate_only_current:
  "set (caches_keys (activate cs)) \<subseteq> {CACHE_NAME} \<and>
   length (caches_keys (activate cs)) \<le> 1 \<and>
   caches_keys (activate cs) = (if CACHE_NAME \<in> set (caches_keys cs) then [CACHE_NAME] else []) \<and>
   DAList.lookup (activate cs) CACHE_NAME = DAList.lookup cs CACHE_NAME \<and>
   caches_keys (activate (snd (install origin net cs))) = [CACHE_NAME]"
  by (simp add: keys_activate_if lookup_activate install_has_current)

theorem activate_only_current_witness:
  "caches_keys (activate
      (DAList.update ''visitorbook-v6'' Map.empty
        (DAList.update ''visitorbook-v5'' Map.empty
          (DAList.update ''visitorbook-v4'' Map.empty DAList.empty))))
     = [''visitorbook-v6'']"
  using activate_only_current [of
      "DAList.update ''visitorbook-v6'' Map.empty
        (DAList.update ''visitorbook-v5'' Map.empty
          (DAList.update ''visitorbook-v4'' Map.empty DAList.empty))"]
  by (simp add: CACHE_NAME_def caches_keys_def DAList.update.rep_eq DAList.empty.rep_eq)

section \<open>The claims about the store\<close>

text \<open>
  Claim C5. After any sequence of operations of the module from a browser without the
  database (any sequence of \<open>saveEntry\<close> calls among them), \<open>getAllEntries\<close>
  resolves with the array collected by walking the timestamp index backwards; its
  timestamps are in descending order (the reversed list is ascending, in the order in
  which the engine compares the ISO strings), and it holds each record of the entries
  store once and nothing else.
\<close>

theorem getAllEntries_newest_first:
  "\<exists>es s1 st. getAllEntries (run ops fresh) = (Inr es, s1) \<and> entries s1 = Some st \<and>
     es = cursor_loop st (rev (index st)) [] \<and>
     sorted (rev (map (\<lambda>(k, d). entryData.timestamp d) es)) \<and>
     distinct es \<and> set es = set (records st)"
proof -
  have "inv (run ops fresh)" by (rule inv_run [OF inv_fresh])
  from entries_transaction_inv [OF this] obtain st s1 where
    t: "entries_transaction (run ops fresh) = (Inr st, s1)" "inv s1" "entries s1 = Some st"
    by blast
  then have wf: "wf_store entry_timestamp st" by (auto dest: inv_wf_entries)
  show ?thesis using t getAll_wf [OF wf]
    by (simp add: getAllEntries_def openCursor_prev_def)
qed

theorem getAllEntries_newest_first_witness:
  "\<exists>es s1. getAllEntries (run
        [SaveEntry
           \<lparr>year = 2024, month = 3, day = 9, hours = 14, minutes = 5, seconds = 59, milliseconds = 7\<rparr>
           \<lparr>entry.photo = None, signature = Some ''data:a'', name = Some ''A'', designation = None,
            timestamp = None\<rparr>,
         SaveEntry
           \<lparr>year = 2024, month = 3, day = 10, hours = 8, minutes = 0, seconds = 0, milliseconds = 0\<rparr>
           \<lparr>entry.photo = None, signature = Some ''data:b'', name = Some ''B'', designation = None,
            timestamp = None\<rparr>,
         SaveEntry
           \<lparr>year = 2024, month = 3, day = 9, hours = 9, minutes = 30, seconds = 0, milliseconds = 0\<rparr>
           \<lparr>entry.photo = None, signature = Some ''data:c'', name = Some ''C'', designation = None,
            timestamp = None\<rparr>]
        fresh) = (Inr es, s1) \<and>
      map fst es = [2, 1, 3] \<and>
      map (\<lambda>(k, d). entryData.timestamp d) es =
        [''2024-03-10T08:00:00.000Z'', ''2024-03-09T14:05:59.007Z'', ''2024-03-09T09:30:00.000Z''] \<and>
      sorted (rev (map (\<lambda>(k, d). entryData.timestamp d) es))"
proof -
  let ?ops = "[SaveEntry
           \<lparr>year = 2024, month = 3, day = 9, hours = 14, minutes = 5, seconds = 59, milliseconds = 7\<rparr>
           \<lparr>entry.photo = None, signature = Some ''data:a'', name = Some ''A'', designation = None,
            timestamp = None\<rparr>,
         SaveEntry
           \<lparr>year = 2024, month = 3, day = 10, hours = 8, minutes = 0, seconds = 0, milliseconds = 0\<rparr>
           \<lparr>entry.photo = None, signature = Some ''data:b'', name = Some ''B'', designation = None,
            timestamp = None\<rparr>,
         SaveEntry
           \<lparr>year = 2024, month = 3, day = 9, hours = 9, minutes = 30, seconds = 0, milliseconds = 0\<rparr>
           \<lparr>entry.photo = None, signature = Some ''data:c'', name = Some ''C'', designation = None,
            timestamp = None\<rparr>]"
  from getAllEntries_newest_first [of ?ops] obtain es s1 where
    g: "getAllEntries (run ?ops fresh) = (Inr es, s1)"
    and s: "sorted (rev (map (\<lambda>(k, d). entryData.timestamp d) es))" by blast
  have i: "map_sum id (map fst) (fst (getAllEntries (run ?ops fresh))) = Inr [2, 1, 3]"
    by code_simp
  have t: "map_sum id (map (\<lambda>(k, d). entryData.timestamp d)) (fst (getAllEntries (run ?ops fresh)))
      = Inr [''2024-03-10T08:00:00.000Z'', ''2024-03-09T14:05:59.007Z'',
             ''2024-03-09T09:30:00.000Z'']"
    by code_simp
  from g i t s show ?thesis by auto
qed

text \<open>
  Claim C6. \<open>saveEntry\<close> succeeds in every state the module reaches, as long as
  the key generator has not run out. When it resolves with \<open>k\<close>, the entries
  store holds under \<open>k\<close> the object built from the input with the timestamp of
  the clock; a timestamp in the input changes nothing; no record had the key \<open>k\<close>
  before; and every later \<open>saveEntry\<close>, whatever is done in between, resolves
  with a greater key.
\<close>

theorem saveEntry_stamps_and_assigns:
  "((\<forall>st. entries (run ops fresh) = Some st \<longrightarrow> key_generator st \<le> 2 ^ 53) \<longrightarrow>
      (\<exists>k s1. saveEntry (run ops fresh) now e = (Inr k, s1))) \<and>
   (saveEntry s now e = (Inr k, s1) \<longrightarrow>
      (\<exists>st. entries s1 = Some st \<and>
         store_get k st = Some (k,
            \<lparr>entryData.photo = entry.photo e, signature = entry.signature e,
             name = or_empty (entry.name e), designation = or_empty (entry.designation e),
             timestamp = toISOString now\<rparr>)) \<and>
      saveEntry s now (e\<lparr>entry.timestamp := t\<rparr>) = (Inr k, s1) \<and>
      fst (getEntry s k) = Inr None \<and>
      (\<forall>ops now' e' k' s2. saveEntry (run ops s1) now' e' = (Inr k', s2) \<longrightarrow> k < k'))"
proof (intro conjI impI)
  assume "\<forall>st. entries (run ops fresh) = Some st \<longrightarrow> key_generator st \<le> 2 ^ 53"
  with inv_run [OF inv_fresh, of ops]
  show "\<exists>k s1. saveEntry (run ops fresh) now e = (Inr k, s1)"
    by (rule saveEntry_succeeds)
next
  assume a: "saveEntry s now e = (Inr k, s1)"
  show "\<exists>st. entries s1 = Some st \<and>
         store_get k st = Some (k,
            \<lparr>entryData.photo = entry.photo e, signature = entry.signature e,
             name = or_empty (entry.name e), designation = or_empty (entry.designation e),
             timestamp = toISOString now\<rparr>)"
    by (rule saveEntry_stored [OF a])
  show "saveEntry s now (e\<lparr>entry.timestamp := t\<rparr>) = (Inr k, s1)"
    using a by (simp add: saveEntry_timestamp_ignored)
  show "fst (getEntry s k) = Inr None"
    by (rule getEntry_before_save [OF a])
  show "\<forall>ops now' e' k' s2. saveEntry (run ops s1) now' e' = (Inr k', s2) \<longrightarrow> k < k'"
    using saveEntry_later_id [OF a] by blast
qed

theorem saveEntry_stamps_and_assigns_witness:
  "saveEntry fresh
     \<lparr>year = 2024, month = 3, day = 9, hours = 14, minutes = 5, seconds = 59, milliseconds = 7\<rparr>
     \<lparr>entry.photo = None, signature = Some ''data:image/png;base64,iVBORw=='',
      name = Some ''Jane Doe'', designation = Some ''Engineer'',
      timestamp = Some ''1999-01-01T00:00:00.000Z''\<rparr>
   = (Inr 1, snd (saveEntry fresh
     \<lparr>year = 2024, month = 3, day = 9, hours = 14, minutes = 5, seconds = 59, milliseconds = 7\<rparr>
     \<lparr>entry.photo = None, signature = Some ''data:image/png;base64,iVBORw=='',
      name = Some ''Jane Doe'', designation = Some ''Engineer'',
      timestamp = Some ''1999-01-01T00:00:00.000Z''\<rparr>)) \<and>
   (\<exists>st. entries (snd (saveEntry fresh
     \<lparr>year = 2024, month = 3, day = 9, hours = 14, minutes = 5, seconds = 59, milliseconds = 7\<rparr>
     \<lparr>entry.photo = None, signature = Some ''data:image/png;base64,iVBORw=='',
      name = Some ''Jane Doe'', designation = Some ''Engineer'',
      timestamp = Some ''1999-01-01T00:00:00.000Z''\<rparr>)) = Some st \<and>
     store_get 1 st = Some (1,
       \<lparr>entryData.photo = None, signature = Some ''data:image/png;base64,iVBORw=='',
        name = ''Jane Doe'', designation = ''Engineer'',
        timestamp = ''2024-03-09T14:05:59.007Z''\<rparr>)) \<and>
   fst (getEntry fresh 1) = Inr None"
proof -
  let ?now = "\<lparr>year = 2024, month = 3, day = 9, hours = 14, minutes = 5, seconds = 59,
      milliseconds = 7\<rparr>"
  let ?e = "\<lparr>entry.photo = None, signature = Some ''data:image/png;base64,iVBORw=='',
      name = Some ''Jane Doe'', designation = Some ''Engineer'',
      timestamp = Some ''1999-01-01T00:00:00.000Z''\<rparr>"
  have "fst (saveEntry fresh ?now ?e) = Inr 1" by code_simp
  then have h: "saveEntry fresh ?now ?e = (Inr 1, snd (saveEntry fresh ?now ?e))"
    by (simp add: prod_eq_iff)
  have ts: "toISOString ?now = ''2024-03-09T14:05:59.007Z''" by code_simp
  note t = saveEntry_stamps_and_assigns [of "[]" ?now ?e fresh 1 "snd (saveEntry fresh ?now ?e)"]
  from t h have "\<exists>st. entries (snd (saveEntry fresh ?now ?e)) = Some st \<and>
      store_get 1 st = Some (1,
        \<lparr>entryData.photo = entry.photo ?e, signature = entry.signature ?e,
         name = or_empty (entry.name ?e), designation = or_empty (entry.designation ?e),
         timestamp = toISOString ?now\<rparr>)"
    and g: "fst (getEntry fresh 1) = Inr None" by blast+
  then show ?thesis using h by (simp add: ts or_empty_def)
qed

text \<open>
  Claim C7. In every state the module reaches, \<open>getEntry\<close> resolves: with the
  stored record of that key when there is one, with \<open>undefined\<close> when there is
  none; and \<open>deleteEntry\<close> resolves. After a \<open>deleteEntry\<close> that
  resolved, \<open>getEntry\<close> of the same key resolves with \<open>undefined\<close>
  and a second \<open>deleteEntry\<close> of it resolves too.
\<close>

theorem getEntry_and_deleteEntry:
  "(\<exists>r s1 st. getEntry (run ops fresh) i = (Inr r, s1) \<and> entries s1 = Some st \<and>
      (case r of
         None \<Rightarrow> i \<notin> fst ` set (records st)
       | Some (k, d) \<Rightarrow> k = i \<and> (i, d) \<in> set (records st))) \<and>
   (\<exists>s1. deleteEntry (run ops fresh) i = (Inr (), s1)) \<and>
   (\<forall>s s1. deleteEntry s i = (Inr (), s1) \<longrightarrow>
      getEntry s1 i = (Inr None, s1) \<and> fst (deleteEntry s1 i) = Inr ())"
proof -
  have "inv (run ops fresh)" by (rule inv_run [OF inv_fresh])
  from entries_transaction_inv [OF this] obtain st s0 where
    t: "entries_transaction (run ops fresh) = (Inr st, s0)" "entries s0 = Some st" by blast
  have 1: "\<exists>r s1 st. getEntry (run ops fresh) i = (Inr r, s1) \<and> entries s1 = Some st \<and>
      (case r of
         None \<Rightarrow> i \<notin> fst ` set (records st)
       | Some (k, d) \<Rightarrow> k = i \<and> (i, d) \<in> set (records st))"
    using t store_get_cases [of i st] by (simp add: getEntry_def)
  have 2: "\<exists>s1. deleteEntry (run ops fresh) i = (Inr (), s1)"
    using t by (simp add: deleteEntry_def)
  show ?thesis using 1 2 deleteEntry_then by blast
qed

theorem getEntry_and_deleteEntry_witness:
  "(\<exists>s1. deleteEntry (run [SaveEntry
        \<lparr>year = 2024, month = 3, day = 9, hours = 14, minutes = 5, seconds = 59, milliseconds = 7\<rparr>
        \<lparr>entry.photo = None, signature = Some ''data:image/png;base64,iVBORw=='',
         name = Some ''Jane Doe'', designation = Some ''Engineer'', timestamp = None\<rparr>] fresh) 1
      = (Inr (), s1) \<and>
      getEntry s1 1 = (Inr None, s1) \<and> fst (deleteEntry s1 1) = Inr ()) \<and>
   fst (getEntry (run [SaveEntry
        \<lparr>year = 2024, month = 3, day = 9, hours = 14, minutes = 5, seconds = 59, milliseconds = 7\<rparr>
        \<lparr>entry.photo = None, signature = Some ''data:image/png;base64,iVBORw=='',
         name = Some ''Jane Doe'', designation = Some ''Engineer'', timestamp = None\<rparr>] fresh) 1)
     = Inr (Some (1,
        \<lparr>entryData.photo = None, signature = Some ''data:image/png;base64,iVBORw=='',
         name = ''Jane Doe'', designation = ''Engineer'',
         timestamp = ''2024-03-09T14:05:59.007Z''\<rparr>)) \<and>
   fst (getEntry (run [SaveEntry
        \<lparr>year = 2024, month = 3, day = 9, hours = 14, minutes = 5, seconds = 59, milliseconds = 7\<rparr>
        \<lparr>entry.photo = None, signature = Some ''data:image/png;base64,iVBORw=='',
         name = Some ''Jane Doe'', designation = Some ''Engineer'', timestamp = None\<rparr>] fresh) 2)
     = Inr None"
proof -
  let ?ops = "[SaveEntry
        \<lparr>year = 2024, month = 3, day = 9, hours = 14, minutes = 5, seconds = 59, milliseconds = 7\<rparr>
        \<lparr>entry.photo = None, signature = Some ''data:image/png;base64,iVBORw=='',
         name = Some ''Jane Doe'', designation = Some ''Engineer'', timestamp = None\<rparr>]"
  note t = getEntry_and_deleteEntry [of ?ops 1]
  from t obtain s1 where d: "deleteEntry (run ?ops fresh) 1 = (Inr (), s1)" by blast
  from t d have a: "getEntry s1 1 = (Inr None, s1) \<and> fst (deleteEntry s1 1) = Inr ()" by blast
  have g1: "fst (getEntry (run ?ops fresh) 1)
     = Inr (Some (1,
        \<lparr>entryData.photo = None, signature = Some ''data:image/png;base64,iVBORw=='',
         name = ''Jane Doe'', designation = ''Engineer'',
         timestamp = ''2024-03-09T14:05:59.007Z''\<rparr>))" by code_simp
  have g2: "fst (getEntry (run ?ops fresh) 2) = Inr None" by code_simp
  from d a g1 g2 show ?thesis by blast
qed

text \<open>
  Claim C9. \<open>deleteAllEntries\<close> resolves in every state the module reaches.
  After it has resolved the entry count is zero and \<open>getAllEntries\<close> gives the
  empty array, while the visitors store is the one there was before and
  \<open>getAllVisitors\<close> gives what it gave before.
\<close>

theorem deleteAllEntries_leaves_visitors:
  "(\<exists>s1. deleteAllEntries (run ops fresh) = (Inr (), s1)) \<and>
   (\<forall>s s1. deleteAllEntries s = (Inr (), s1) \<longrightarrow>
      fst (getEntryCount s1) = Inr 0 \<and>
      fst (getAllEntries s1) = Inr [] \<and>
      (\<forall>vs. visitors s = Some vs \<longrightarrow> visitors s1 = Some vs) \<and>
      fst (getAllVisitors s1) = fst (getAllVisitors s))"
proof -
  have "inv (run ops fresh)" by (rule inv_run [OF inv_fresh])
  from entries_transaction_inv [OF this] obtain st s0 where
    "entries_transaction (run ops fresh) = (Inr st, s0)" by blast
  then have "\<exists>s1. deleteAllEntries (run ops fresh) = (Inr (), s1)"
    by (simp add: deleteAllEntries_def)
  then show ?thesis using deleteAllEntries_then by blast
qed

theorem deleteAllEntries_leaves_visitors_witness:
  "(\<exists>s1. deleteAllEntries (run
        [AddVisitor
           \<lparr>year = 2024, month = 3, day = 1, hours = 9, minutes = 0, seconds = 0, milliseconds = 0\<rparr>
           \<lparr>visitor.photo = None, name = Some ''Asha Rao'', designation = Some ''Captain''\<rparr>,
         AddVisitor
           \<lparr>year = 2024, month = 3, day = 1, hours = 9, minutes = 5, seconds = 0, milliseconds = 0\<rparr>
           \<lparr>visitor.photo = Some ''data:image/jpeg;base64,AAAA'', name = Some ''Ben Ode'',
            designation = None\<rparr>,
         SaveEntry
           \<lparr>year = 2024, month = 3, day = 9, hours = 14, minutes = 5, seconds = 59, milliseconds = 7\<rparr>
           \<lparr>entry.photo = None, signature = Some ''data:image/png;base64,iVBORw=='',
            name = Some ''Jane Doe'', designation = Some ''Engineer'', timestamp = None\<rparr>]
        fresh) = (Inr (), s1) \<and>
      fst (getEntryCount s1) = Inr 0 \<and>
      map_sum id length (fst (getAllVisitors s1)) = Inr 2) \<and>
   fst (getEntryCount (run
        [AddVisitor
           \<lparr>year = 2024, month = 3, day = 1, hours = 9, minutes = 0, seconds = 0, milliseconds = 0\<rparr>
           \<lparr>visitor.photo = None, name = Some ''Asha Rao'', designation = Some ''Captain''\<rparr>,
         AddVisitor
           \<lparr>year = 2024, month = 3, day = 1, hours = 9, minutes = 5, seconds = 0, milliseconds = 0\<rparr>
           \<lparr>visitor.photo = Some ''data:image/jpeg;base64,AAAA'', name = Some ''Ben Ode'',
            designation = None\<rparr>,
         SaveEntry
           \<lparr>year = 2024, month = 3, day = 9, hours = 14, minutes = 5, seconds = 59, milliseconds = 7\<rparr>
           \<lparr>entry.photo = None, signature = Some ''data:image/png;base64,iVBORw=='',
            name = Some ''Jane Doe'', designation = Some ''Engineer'', timestamp = None\<rparr>]
        fresh)) = Inr 1"
proof -
  let ?ops = "[AddVisitor
           \<lparr>year = 2024, month = 3, day = 1, hours = 9, minutes = 0, seconds = 0, milliseconds = 0\<rparr>
           \<lparr>visitor.photo = None, name = Some ''Asha Rao'', designation = Some ''Captain''\<rparr>,
         AddVisitor
           \<lparr>year = 2024, month = 3, day = 1, hours = 9, minutes = 5, seconds = 0, milliseconds = 0\<rparr>
           \<lparr>visitor.photo = Some ''data:image/jpeg;base64,AAAA'', name = Some ''Ben Ode'',
            designation = None\<rparr>,
         SaveEntry
           \<lparr>year = 2024, month = 3, day = 9, hours = 14, minutes = 5, seconds = 59, milliseconds = 7\<rparr>
           \<lparr>entry.photo = None, signature = Some ''data:image/png;base64,iVBORw=='',
            name = Some ''Jane Doe'', designation = Some ''Engineer'', timestamp = None\<rparr>]"
  note t = deleteAllEntries_leaves_visitors [of ?ops]
  from t obtain s1 where d: "deleteAllEntries (run ?ops fresh) = (Inr (), s1)" by blast
  from t d have a: "fst (getEntryCount s1) = Inr 0"
    and v: "fst (getAllVisitors s1) = fst (getAllVisitors (run ?ops fresh))" by blast+
  have n: "map_sum id length (fst (getAllVisitors (run ?ops fresh))) = Inr 2" by code_simp
  have c: "fst (getEntryCount (run ?ops fresh)) = Inr 1" by code_simp
  from d a v n c show ?thesis by auto
qed

text \<open>
  Claim C10. The record \<open>saveEntry\<close> has stored has the input's name and
  designation, or the empty string where the input has none, a timestamp that is not the
  empty string, and the photo and the signature of the input as they are. The same call
  with the signature (or the photo) left out resolves with the same key and stores a
  record without it.
\<close>

theorem saveEntry_record_shape:
  assumes "saveEntry s now e = (Inr k, s1)"
  shows "(\<exists>st d. entries s1 = Some st \<and> store_get k st = Some (k, d) \<and>
       entryData.name d = (case entry.name e of None \<Rightarrow> [] | Some n \<Rightarrow> n) \<and>
       entryData.designation d = (case entry.designation e of None \<Rightarrow> [] | Some n \<Rightarrow> n) \<and>
       entryData.timestamp d \<noteq> [] \<and>
       entryData.photo d = entry.photo e \<and>
       entryData.signature d = entry.signature e) \<and>
    (\<exists>s2 st d. saveEntry s now (e\<lparr>entry.signature := None\<rparr>) = (Inr k, s2) \<and>
       entries s2 = Some st \<and> store_get k st = Some (k, d) \<and>
       entryData.signature d = None) \<and>
    (\<exists>s2 st d. saveEntry s now (e\<lparr>entry.photo := None\<rparr>) = (Inr k, s2) \<and>
       entries s2 = Some st \<and> store_get k st = Some (k, d) \<and>
       entryData.photo d = None)"
proof -
  have 1: "\<exists>st d. entries s1 = Some st \<and> store_get k st = Some (k, d) \<and>
       entryData.name d = (case entry.name e of None \<Rightarrow> [] | Some n \<Rightarrow> n) \<and>
       entryData.designation d = (case entry.designation e of None \<Rightarrow> [] | Some n \<Rightarrow> n) \<and>
       entryData.timestamp d \<noteq> [] \<and>
       entryData.photo d = entry.photo e \<and>
       entryData.signature d = entry.signature e"
    using saveEntry_stored [OF assms]
    by (auto simp: toISOString_nonempty or_empty_cases)
  from saveEntry_any_entry [OF assms] obtain s2 where
    2: "saveEntry s now (e\<lparr>entry.signature := None\<rparr>) = (Inr k, s2)" by blast
  from saveEntry_any_entry [OF assms] obtain s3 where
    3: "saveEntry s now (e\<lparr>entry.photo := None\<rparr>) = (Inr k, s3)" by blast
  show ?thesis
    using 1 2 3 saveEntry_stored [OF 2] saveEntry_stored [OF 3] by auto
qed

theorem saveEntry_record_shape_witness:
  "saveEntry fresh
     \<lparr>year = 2024, month = 3, day = 9, hours = 14, minutes = 5, seconds = 59, milliseconds = 7\<rparr>
     \<lparr>entry.photo = None, signature = None, name = Some ''Jane Doe'', designation = None,
      timestamp = None\<rparr>
   = (Inr 1, snd (saveEntry fresh
     \<lparr>year = 2024, month = 3, day = 9, hours = 14, minutes = 5, seconds = 59, milliseconds = 7\<rparr>
     \<lparr>entry.photo = None, signature = None, name = Some ''Jane Doe'', designation = None,
      timestamp = None\<rparr>)) \<and>
   (\<exists>st d. entries (snd (saveEntry fresh
     \<lparr>year = 2024, month = 3, day = 9, hours = 14, minutes = 5, seconds = 59, milliseconds = 7\<rparr>
     \<lparr>entry.photo = None, signature = None, name = Some ''Jane Doe'', designation = None,
      timestamp = None\<rparr>)) = Some st \<and>
     store_get 1 st = Some (1, d) \<and>
     entryData.name d = ''Jane Doe'' \<and> entryData.designation d = [] \<and>
     entryData.timestamp d \<noteq> [] \<and>
     entryData.photo d = None \<and> entryData.signature d = None)"
proof -
  let ?now = "\<lparr>year = 2024, month = 3, day = 9, hours = 14, minutes = 5, seconds = 59,
      milliseconds = 7\<rparr>"
  let ?e = "\<lparr>entry.photo = None, signature = None, name = Some ''Jane Doe'',
      designation = None, timestamp = None\<rparr>"
  have "fst (saveEntry fresh ?now ?e) = Inr 1" by code_simp
  then have h: "saveEntry fresh ?now ?e = (Inr 1, snd (saveEntry fresh ?now ?e))"
    by (simp add: prod_eq_iff)
  show ?thesis
    using h saveEntry_record_shape [OF h] by simp
qed

text \<open>
  Claim C2, as amended. \<open>initDB\<close> is idempotent for calls that are awaited one
  after the other, and for calls made while the handle is set and no open request is
  pending: these calls, in any number and order with the engine's events, all resolve
  with one and the same handle, the engine is opened at most once for all of them, and
  not at all once the handle is set. Whatever is pending, no call opens the engine while a
  handle exists. Over any interleaving of calls the upgrade handler runs exactly once
  per version bump: once when the stored version went up to \<open>DB_VERSION\<close>, as it
  does with the first call in a browser that has an older database or none, and not at
  all otherwise.
\<close>

theorem initDB_idempotent_when_awaited:
  "(\<forall>h. db s = Some h \<longrightarrow>
      run_events evs (s, 0, rs) =
        (s, 0, rs @ replicate (length (filter (\<lambda>e. e = Call) evs)) (Inr h))) \<and>
   (\<forall>h s1. initDB s = (Inr h, s1) \<longrightarrow> initDB s1 = (Inr h, s1)) \<and>
   run_events [Call, Settle] (s, 0, rs) = (snd (initDB s), 0, rs @ [fst (initDB s)]) \<and>
   (\<forall>h s1. initDB s = (Inr h, s1) \<longrightarrow>
      run_events (concat (replicate (Suc n) [Call, Settle])) (s, 0, rs) =
        (s1, 0, rs @ replicate (Suc n) (Inr h)) \<and>
      opens s1 \<le> opens s + 1) \<and>
   (db s \<noteq> None \<longrightarrow>
      db (fst (run_events evs (s, p, rs))) \<noteq> None \<and>
      opens (fst (run_events evs (s, p, rs))) = opens s) \<and>
   upgrades (fst (run_events evs st)) \<le> upgrades (fst st) + 1 \<and>
   (version (fst st) = DB_VERSION \<longrightarrow>
      upgrades (fst (run_events evs st)) = upgrades (fst st)) \<and>
   (version (fst st) < DB_VERSION \<and> version (fst (run_events evs st)) = DB_VERSION \<longrightarrow>
      upgrades (fst (run_events evs st)) = upgrades (fst st) + 1) \<and>
   upgrades (fst (run_events evs st)) =
     upgrades (fst st) +
     (if version (fst st) < DB_VERSION \<and> DB_VERSION \<le> version (fst (run_events evs st))
      then 1 else 0) \<and>
   (db s = None \<and> version s < DB_VERSION \<longrightarrow>
      upgrades (snd (initDB s)) = upgrades s + 1 \<and> version (snd (initDB s)) = DB_VERSION)"
proof (intro conjI allI impI)
  fix h assume "db s = Some h"
  then show "run_events evs (s, 0, rs) =
      (s, 0, rs @ replicate (length (filter (\<lambda>e. e = Call) evs)) (Inr h))"
    by (rule run_events_set)
next
  fix h s1 assume "initDB s = (Inr h, s1)"
  then show "initDB s1 = (Inr h, s1)" by (rule initDB_again)
next
  show "run_events [Call, Settle] (s, 0, rs) = (snd (initDB s), 0, rs @ [fst (initDB s)])"
    by (rule initDB_as_events)
next
  fix h s1 assume "initDB s = (Inr h, s1)"
  then show "run_events (concat (replicate (Suc n) [Call, Settle])) (s, 0, rs) =
        (s1, 0, rs @ replicate (Suc n) (Inr h))"
    by (rule run_events_awaited)
next
  fix h s1 assume "initDB s = (Inr h, s1)"
  then show "opens s1 \<le> opens s + 1"
    using initDB_opens [of s] by simp
next
  assume "db s \<noteq> None"
  then show "db (fst (run_events evs (s, p, rs))) \<noteq> None"
    using run_events_handle [of "(s, p, rs)" evs] by simp
next
  assume "db s \<noteq> None"
  then show "opens (fst (run_events evs (s, p, rs))) = opens s"
    using run_events_handle [of "(s, p, rs)" evs] by simp
next
  show "upgrades (fst (run_events evs st)) \<le> upgrades (fst st) + 1"
    by (rule run_events_upgrades)
next
  assume "version (fst st) = DB_VERSION"
  then show "upgrades (fst (run_events evs st)) = upgrades (fst st)"
    by (rule run_events_no_upgrade)
next
  assume "version (fst st) < DB_VERSION \<and> version (fst (run_events evs st)) = DB_VERSION"
  then show "upgrades (fst (run_events evs st)) = upgrades (fst st) + 1"
    using run_events_one_upgrade [of st evs] by simp
next
  show "upgrades (fst (run_events evs st)) =
     upgrades (fst st) +
     (if version (fst st) < DB_VERSION \<and> DB_VERSION \<le> version (fst (run_events evs st))
      then 1 else 0)"
    by (rule run_events_upgrades_eq)
next
  assume "db s = None \<and> version s < DB_VERSION"
  then show "upgrades (snd (initDB s)) = upgrades s + 1"
    using initDB_upgrade [of s] by simp
next
  assume "db s = None \<and> version s < DB_VERSION"
  then show "version (snd (initDB s)) = DB_VERSION"
    using initDB_upgrade [of s] by simp
qed

theorem initDB_idempotent_when_awaited_witness:
  "initDB fresh = (Inr 0, snd (initDB fresh)) \<and>
   db (snd (initDB fresh)) = Some 0 \<and>
   run_events [Call, Call, Call] (snd (initDB fresh), 0, []) =
     (snd (initDB fresh), 0, [Inr 0, Inr 0, Inr 0]) \<and>
   initDB (snd (initDB fresh)) = (Inr 0, snd (initDB fresh)) \<and>
   run_events [Call, Settle, Call, Settle, Call, Settle] (fresh, 0, []) =
     (snd (initDB fresh), 0, [Inr 0, Inr 0, Inr 0]) \<and>
   opens (snd (initDB fresh)) = 1 \<and>
   upgrades (snd (initDB fresh)) = 1 \<and>
   version (snd (initDB fresh)) = DB_VERSION"
proof -
  have f: "fst (initDB fresh) = Inr 0" by code_simp
  then have i: "initDB fresh = (Inr 0, snd (initDB fresh))" by (simp add: prod_eq_iff)
  have d: "db (snd (initDB fresh)) = Some 0" by code_simp
  have o: "opens (snd (initDB fresh)) = 1" by code_simp
  have none: "db fresh = None \<and> version fresh < DB_VERSION" by code_simp
  have u0: "upgrades fresh = 0" by code_simp
  note w = initDB_idempotent_when_awaited [of "snd (initDB fresh)" "[Call, Call, Call]" "[]"
        2 0 "(fresh, 0, [])"]
  note v = initDB_idempotent_when_awaited [of fresh "[]" "[]" 2 0 "(fresh, 0, [])"]
  from w d have r: "run_events [Call, Call, Call] (snd (initDB fresh), 0, []) =
     (snd (initDB fresh), 0, [] @ replicate (length (filter (\<lambda>e. e = Call) [Call, Call, Call])) (Inr 0))"
    by blast
  from v i have a: "initDB (snd (initDB fresh)) = (Inr 0, snd (initDB fresh))" by blast
  from v i have q: "run_events (concat (replicate (Suc 2) [Call, Settle])) (fresh, 0, []) =
        (snd (initDB fresh), 0, [] @ replicate (Suc 2) (Inr 0))"
    by blast
  from v none have g: "upgrades (snd (initDB fresh)) = upgrades fresh + 1 \<and>
      version (snd (initDB fresh)) = DB_VERSION"
    by blast
  have "replicate (length (filter (\<lambda>e. e = Call) [Call, Call, Call])) (Inr 0 :: error + nat)
      = [Inr 0, Inr 0, Inr 0]" by (simp add: numeral_3_eq_3)
  with r have r': "run_events [Call, Call, Call] (snd (initDB fresh), 0, []) =
     (snd (initDB fresh), 0, [Inr 0, Inr 0, Inr 0])" by simp
  have "concat (replicate (Suc 2) [Call, Settle]) = [Call, Settle, Call, Settle, Call, Settle]"
    by (simp add: numeral_2_eq_2)
  moreover have "[] @ replicate (Suc 2) (Inr 0 :: error + nat) = [Inr 0, Inr 0, Inr 0]"
    by (simp add: numeral_2_eq_2)
  ultimately have q': "run_events [Call, Settle, Call, Settle, Call, Settle] (fresh, 0, []) =
     (snd (initDB fresh), 0, [Inr 0, Inr 0, Inr 0])"
    using q by simp
  from g u0 have u: "upgrades (snd (initDB fresh)) = 1" and ver: "version (snd (initDB fresh)) = DB_VERSION"
    by simp_all
  from i d r' a q' o u ver show ?thesis by blast
qed

text \<open>
  The claim C2 as it was stated fails for calls that are not awaited: two calls made
  before the first open request settles both find \<open>db\<close> unset, the engine is
  opened twice, and the two calls resolve with two different handles. A request that is
  still pending when the handle is set replaces the handle when it settles, so that
  calls made after the handle was set resolve with different handles as well.
\<close>

theorem initDB_concurrent_counterexample:
  "snd (snd (run_events [Call, Call, Settle, Settle] (fresh, 0, []))) = [Inr 0, Inr 1] \<and>
   opens (fst (run_events [Call, Call, Settle, Settle] (fresh, 0, []))) = 2 \<and>
   db (fst (run_events [Call, Call, Settle, Settle] (fresh, 0, []))) = Some 1 \<and>
   snd (snd (run_events [Call, Call, Settle, Call, Settle, Call] (fresh, 0, []))) =
     [Inr 0, Inr 0, Inr 1, Inr 1]"
  by (simp add: run_events_def fresh_def open_request_def open_complete_def onupgradeneeded_def
      DB_VERSION_def Let_def)
section \<open>The claim about the conversions\<close>




end
